theory Spec2Isabelle
  imports Main "HOL-Library.Sublist"
begin

section \<open>The search engine of cugrep (src/grep.cpp)\<close>

text \<open>
  The program keeps its configuration in four globals, set once by \<^verbatim>\<open>main\<close> before
  any scan: \<^verbatim>\<open>complement\<close> (option -v), \<^verbatim>\<open>recursive\<close> (option -r), \<^verbatim>\<open>pattern\<close>
  and \<^verbatim>\<open>patternSize\<close>. They are read-only afterwards, so every function of the model
  takes them as a record. \<^verbatim>\<open>patternSize\<close> is assigned \<^verbatim>\<open>pattern.size()\<close> (line 216) and
  is therefore a function of the record, not a field of its own.

  The C++ indices (\<^verbatim>\<open>int\<close>) only count upwards from 0 and are bounded by the size of
  the line or buffer; they are natural numbers here, which is exact for every buffer
  below \<open>2^31\<close> bytes.
\<close>

record config =
  complement :: bool
  recursive :: bool
  pattern :: string

definition patternSize :: "config \<Rightarrow> nat" where
  "patternSize cfg = length (pattern cfg)"

definition newline :: char where
  "newline = CHR 0x0A"

subsection \<open>Reading a byte\<close>

text \<open>
  \<^verbatim>\<open>data[i]\<close>, \<^verbatim>\<open>line[i]\<close> and \<^verbatim>\<open>pattern[i]\<close> are unchecked in C++. The model makes
  every read explicit: the list is all the memory that can be read through the pointer
  or string, and a read at an index outside it ends the run with the fault
  \<open>OutOfBounds i\<close>. For the mapped file the list may be longer than the \<^verbatim>\<open>size\<close> handed to
  \<^verbatim>\<open>searchFile\<close> (a mapping is made of whole pages, the bytes after the end of the
  file are readable); a list of exactly \<^verbatim>\<open>size\<close> bytes is the buffer with nothing readable
  behind it, and a run on it faults exactly when the code reads at or past the end of
  the buffer.

  For the two \<^verbatim>\<open>std::string\<close>s the readable indices are taken to be those below
  \<^verbatim>\<open>size()\<close>. (The index \<^verbatim>\<open>size()\<close> itself, the terminator, is reached by the code
  only when the pattern is empty.)
\<close>

datatype fault = OutOfBounds nat

definition byte_at :: "string \<Rightarrow> nat \<Rightarrow> fault + char" where
  "byte_at s i = (if i < length s then Inr (s ! i) else Inl (OutOfBounds i))"

subsection \<open>result (lines 28-30)\<close>

text \<open>
  \<^verbatim>\<open>int result(int a) { return complement ? !bool(a) : a; }\<close>
\<close>

definition result :: "config \<Rightarrow> nat \<Rightarrow> nat" where
  "result cfg a = (if complement cfg then (if a \<noteq> 0 then 0 else 1) else a)"

subsection \<open>searchline and searchstream (lines 37-63)\<close>

text \<open>
  The inner \<^verbatim>\<open>while\<close> of \<^verbatim>\<open>searchline\<close>: \<open>Some r\<close> is the \<^verbatim>\<open>return\<close> inside the loop,
  \<open>None\<close> is the loop running out (its condition is false). The bound
  \<^verbatim>\<open>startPos + matchLen < line.size()\<close> is tested before the bytes are compared.
\<close>

function searchline_while :: "config \<Rightarrow> string \<Rightarrow> nat \<Rightarrow> nat \<Rightarrow> fault + nat option" where
  "searchline_while cfg line startPos matchLen =
     (if startPos + matchLen < length line then
        (case byte_at line (startPos + matchLen) of
           Inl e \<Rightarrow> Inl e
         | Inr c \<Rightarrow>
            (case byte_at (pattern cfg) matchLen of
               Inl e \<Rightarrow> Inl e
             | Inr p \<Rightarrow>
                 if c = p then
                   (if matchLen + 1 = patternSize cfg
                    then Inr (Some (result cfg (startPos + 1)))
                    else searchline_while cfg line startPos (matchLen + 1))
                 else Inr None))
      else Inr None)"
  by pat_completeness auto
termination
  by (relation "measure (\<lambda>(cfg, line, startPos, matchLen). length line - (startPos + matchLen))")
     auto

declare searchline_while.simps [simp del]

text \<open>The \<^verbatim>\<open>for\<close> loop over the start positions, and \<^verbatim>\<open>return result(0)\<close> after it.\<close>

function searchline_for :: "config \<Rightarrow> string \<Rightarrow> nat \<Rightarrow> fault + nat" where
  "searchline_for cfg line startPos =
     (if startPos < length line then
        (case searchline_while cfg line startPos 0 of
           Inl e \<Rightarrow> Inl e
         | Inr (Some r) \<Rightarrow> Inr r
         | Inr None \<Rightarrow> searchline_for cfg line (startPos + 1))
      else Inr (result cfg 0))"
  by pat_completeness auto
termination
  by (relation "measure (\<lambda>(cfg, line, startPos). length line - startPos)") auto

declare searchline_for.simps [simp del]

definition searchline :: "config \<Rightarrow> string \<Rightarrow> fault + nat" where
  "searchline cfg line = searchline_for cfg line 0"

text \<open>
  \<^verbatim>\<open>searchstream\<close>: the stream is the list of the lines \<^verbatim>\<open>getline\<close> delivers (newline
  stripped); the output is the bytes written to \<^verbatim>\<open>cout\<close>.
\<close>

fun searchstream_while :: "config \<Rightarrow> string list \<Rightarrow> string \<Rightarrow> fault + string" where
  "searchstream_while cfg [] out = Inr out"
| "searchstream_while cfg (line # rest) out =
     (case searchline cfg line of
        Inl e \<Rightarrow> Inl e
      | Inr r \<Rightarrow> searchstream_while cfg rest (if r \<noteq> 0 then out @ line @ [newline] else out))"

definition searchstream :: "config \<Rightarrow> string list \<Rightarrow> fault + string" where
  "searchstream cfg lines = searchstream_while cfg lines []"

subsection \<open>match (lines 71-80)\<close>

text \<open>
  \<^verbatim>\<open>match\<close> gets the pointer and the start position, not the size: its loop has no
  bound on \<^verbatim>\<open>startPos + matchLen\<close>. The \<^verbatim>\<open>int\<close> of \<^verbatim>\<open>result\<close> is returned as \<^verbatim>\<open>bool\<close>.
\<close>

function match_while :: "config \<Rightarrow> string \<Rightarrow> nat \<Rightarrow> nat \<Rightarrow> fault + bool" where
  "match_while cfg data startPos matchLen =
     (case byte_at data (startPos + matchLen) of
        Inl e \<Rightarrow> Inl e
      | Inr c \<Rightarrow>
         (case byte_at (pattern cfg) matchLen of
            Inl e \<Rightarrow> Inl e
          | Inr p \<Rightarrow>
              if c = p then
                (if matchLen + 1 = patternSize cfg
                 then Inr (result cfg (startPos + 1) \<noteq> 0)
                 else match_while cfg data startPos (matchLen + 1))
              else Inr (result cfg 0 \<noteq> 0)))"
  by pat_completeness auto
termination
  by (relation "measure (\<lambda>(cfg, data, startPos, matchLen). length data - (startPos + matchLen))")
     (auto simp: byte_at_def split: if_splits)

declare match_while.simps [simp del]

definition match :: "config \<Rightarrow> string \<Rightarrow> nat \<Rightarrow> fault + bool" where
  "match cfg data startPos = match_while cfg data startPos 0"

subsection \<open>searchFile (lines 87-109)\<close>

text \<open>
  The inner loop \<^verbatim>\<open>while(data[iter] != '\n' && iter < size)\<close> reads \<^verbatim>\<open>data[iter]\<close> first
  and tests \<^verbatim>\<open>iter < size\<close> second. \<^verbatim>\<open>match\<close> is called only while \<^verbatim>\<open>matchFound\<close> is
  false. The loop returns the index it stopped at and \<^verbatim>\<open>matchFound\<close>.
\<close>

function searchFile_line :: "config \<Rightarrow> string \<Rightarrow> nat \<Rightarrow> nat \<Rightarrow> bool \<Rightarrow> fault + nat \<times> bool" where
  "searchFile_line cfg data sz iter matchFound =
     (case byte_at data iter of
        Inl e \<Rightarrow> Inl e
      | Inr c \<Rightarrow>
          if c \<noteq> newline \<and> iter < sz then
            (if \<not> matchFound then
               (case match cfg data iter of
                  Inl e \<Rightarrow> Inl e
                | Inr m \<Rightarrow> searchFile_line cfg data sz (iter + 1) m)
             else searchFile_line cfg data sz (iter + 1) matchFound)
          else Inr (iter, matchFound))"
  by pat_completeness auto
termination
  by (relation "measure (\<lambda>(cfg, data, sz, iter, matchFound). length data - iter)")
     (auto simp: byte_at_def split: if_splits)

declare searchFile_line.simps [simp del]

text \<open>
  The outer loop. A line that matched is written as: the path and a colon when
  \<^verbatim>\<open>recursive\<close> is set, the bytes \<^verbatim>\<open>data[startIndex .. iter)\<close>, a newline.
\<close>

function searchFile_while ::
  "config \<Rightarrow> string \<Rightarrow> nat \<Rightarrow> string \<Rightarrow> nat \<Rightarrow> string \<Rightarrow> fault + string" where
  "searchFile_while cfg data sz fpath iter out =
     (if iter < sz then
        (case searchFile_line cfg data sz iter False of
           Inl e \<Rightarrow> Inl e
         | Inr (iter', matchFound) \<Rightarrow>
             searchFile_while cfg data sz fpath (iter' + 1)
               (if matchFound
                then out @ (if recursive cfg then fpath @ '':'' else [])
                         @ take (iter' - iter) (drop iter data) @ [newline]
                else out))
      else Inr out)"
  by pat_completeness auto
termination
proof (relation "measure (\<lambda>(cfg, data, sz, fpath, iter, out). sz - iter)")
  fix cfg :: config and data fpath out :: string and sz iter :: nat
    and x :: "nat \<times> bool" and iter' :: nat and matchFound :: bool
  assume run: "iter < sz" "searchFile_line cfg data sz iter False = Inr x" "(iter', matchFound) = x"
  have "searchFile_line cfg data sz i m = Inr (i', m') \<Longrightarrow> i \<le> i'" for i m i' m'
  proof (induction cfg data sz i m rule: searchFile_line.induct)
    case (1 cfg data sz i m)
    then show ?case
      by (subst (asm) searchFile_line.simps) (fastforce split: sum.splits if_splits)
  qed
  with run have "iter \<le> iter'"
    by metis
  with run
  show "((cfg, data, sz, fpath, iter' + 1,
          if matchFound
          then out @ (if recursive cfg then fpath @ '':'' else [])
                   @ take (iter' - iter) (drop iter data) @ [newline]
          else out),
         cfg, data, sz, fpath, iter, out)
        \<in> measure (\<lambda>(cfg, data, sz, fpath, iter, out). sz - iter)"
    by simp
qed simp

declare searchFile_while.simps [simp del]

definition searchFile :: "config \<Rightarrow> string \<Rightarrow> nat \<Rightarrow> string \<Rightarrow> fault + string" where
  "searchFile cfg data sz fpath = searchFile_while cfg data sz fpath 0 []"

section \<open>The vocabulary of the specification\<close>

text \<open>
  \<open>occursAt\<close> is the contract the specification gives the matcher: the pattern stands in
  the buffer at the offset, with all its bytes inside the buffer. Occurring as a contiguous
  subsequence is \<^const>\<open>sublist\<close> of the library.
\<close>

definition occursAt :: "string \<Rightarrow> string \<Rightarrow> nat \<Rightarrow> bool" where
  "occursAt P buffer offset =
     (offset + length P \<le> length buffer \<and> take (length P) (drop offset buffer) = P)"

text \<open>
  The lines of a buffer as the specification defines them: maximal ranges between
  newlines, the newline excluded, the last one ended by the end of the buffer. A buffer
  that ends in a newline has no further (empty) line after it.
\<close>

function buffer_lines :: "string \<Rightarrow> string list" where
  "buffer_lines [] = []"
| "buffer_lines (c # cs) =
     takeWhile (\<lambda>x. x \<noteq> newline) (c # cs)
       # buffer_lines (tl (dropWhile (\<lambda>x. x \<noteq> newline) (c # cs)))"
  by pat_completeness auto
termination
proof (relation "measure length")
  fix c :: char and cs :: string
  have "length (dropWhile (\<lambda>x. x \<noteq> newline) (c # cs)) \<le> length (c # cs)"
    by (rule length_dropWhile_le)
  then show "(tl (dropWhile (\<lambda>x. x \<noteq> newline) (c # cs)), c # cs) \<in> measure length"
    by (cases "dropWhile (\<lambda>x. x \<noteq> newline) (c # cs)") auto
qed simp

text \<open>
  The decision \<^verbatim>\<open>searchFile\<close> takes for a line, read off its two loops: some start
  position of the line makes \<^verbatim>\<open>match\<close> return true, and \<^verbatim>\<open>match\<close> passes its finding
  through \<^verbatim>\<open>result\<close>. \<open>written\<close> is what is sent to \<^verbatim>\<open>cout\<close> for a list of lines.
\<close>

definition line_selected :: "config \<Rightarrow> string \<Rightarrow> bool" where
  "line_selected cfg l =
     list_ex (\<lambda>p. occursAt (pattern cfg) l p \<noteq> complement cfg) [0..<length l]"

definition written :: "config \<Rightarrow> string \<Rightarrow> string list \<Rightarrow> string" where
  "written cfg fpath ls =
     concat (map (\<lambda>l. (if recursive cfg then fpath @ '':'' else []) @ l @ [newline]) ls)"


section \<open>The stream matcher\<close>

lemma occursAt_nth:
  "occursAt P L i \<longleftrightarrow> i + length P \<le> length L \<and> (\<forall>k<length P. L ! (i + k) = P ! k)"
  by (auto simp: occursAt_def list_eq_iff_nth_eq)

lemma sublist_occursAt: "sublist P L \<longleftrightarrow> (\<exists>i. occursAt P L i)"
proof
  assume "sublist P L"
  then obtain xs ys where "L = xs @ P @ ys"
    by (auto simp: sublist_def)
  then have "occursAt P L (length xs)"
    by (simp add: occursAt_def)
  then show "\<exists>i. occursAt P L i" ..
next
  assume "\<exists>i. occursAt P L i"
  then obtain i where i: "occursAt P L i" ..
  then have "L = take i L @ P @ drop (length P) (drop i L)"
    by (metis occursAt_def append_take_drop_id)
  then show "sublist P L"
    unfolding sublist_def by blast
qed

lemma byte_at_in [simp]: "i < length s \<Longrightarrow> byte_at s i = Inr (s ! i)"
  by (simp add: byte_at_def)

lemma byte_at_out [simp]: "length s \<le> i \<Longrightarrow> byte_at s i = Inl (OutOfBounds i)"
  by (simp add: byte_at_def)

lemma result_positive [simp]:
  "(0 < result cfg (Suc n)) = (\<not> complement cfg)" "(0 < result cfg 0) = complement cfg"
  by (auto simp: result_def)

lemma searchline_while_run:
  assumes "matchLen < length (pattern cfg)"
    and "\<forall>k<matchLen. line ! (startPos + k) = pattern cfg ! k"
  shows "searchline_while cfg line startPos matchLen =
           Inr (if occursAt (pattern cfg) line startPos
                then Some (result cfg (startPos + 1)) else None)"
  using assms
proof (induction cfg line startPos matchLen rule: searchline_while.induct)
  case (1 cfg line startPos matchLen)
  let ?P = "pattern cfg"
  show ?case
  proof (cases "startPos + matchLen < length line")
    case False
    with "1.prems" have "\<not> occursAt ?P line startPos"
      by (auto simp: occursAt_nth)
    with False show ?thesis
      by (subst searchline_while.simps) simp
  next
    case inside: True
    show ?thesis
    proof (cases "line ! (startPos + matchLen) = ?P ! matchLen")
      case False
      with "1.prems" have "\<not> occursAt ?P line startPos"
        by (auto simp: occursAt_nth)
      with False inside "1.prems" show ?thesis
        by (subst searchline_while.simps) simp
    next
      case same: True
      have upto: "\<forall>k<matchLen + 1. line ! (startPos + k) = ?P ! k"
        using same "1.prems"(2) by (auto simp: less_Suc_eq)
      show ?thesis
      proof (cases "matchLen + 1 = patternSize cfg")
        case True
        with upto inside have "occursAt ?P line startPos"
          by (auto simp: occursAt_nth patternSize_def)
        with True same inside "1.prems" show ?thesis
          by (subst searchline_while.simps) simp
      next
        case False
        with "1.prems" have "matchLen + 1 < length ?P"
          by (simp add: patternSize_def)
        with "1.IH" [OF inside _ _ same False] upto inside "1.prems"
        have "searchline_while cfg line startPos (matchLen + 1) =
                Inr (if occursAt ?P line startPos
                     then Some (result cfg (startPos + 1)) else None)"
          by simp
        with False same inside "1.prems" show ?thesis
          by (subst searchline_while.simps) simp
      qed
    qed
  qed
qed

lemma searchline_while_start:
  "pattern cfg \<noteq> [] \<Longrightarrow>
   searchline_while cfg line startPos 0 =
     Inr (if occursAt (pattern cfg) line startPos
          then Some (result cfg (startPos + 1)) else None)"
  by (rule searchline_while_run) auto

lemma occursAt_inside: "P \<noteq> [] \<Longrightarrow> occursAt P L i \<Longrightarrow> i < length L"
  by (cases P) (auto simp: occursAt_def)

lemma searchline_for_none:
  assumes "pattern cfg \<noteq> []" and "\<forall>j\<ge>startPos. \<not> occursAt (pattern cfg) line j"
  shows "searchline_for cfg line startPos = Inr (result cfg 0)"
  using assms
proof (induction cfg line startPos rule: searchline_for.induct)
  case (1 cfg line startPos)
  show ?case
  proof (cases "startPos < length line")
    case True
    with "1.prems" have "searchline_while cfg line startPos 0 = Inr None"
      by (simp add: searchline_while_start)
    moreover from this True "1.prems" "1.IH" have "searchline_for cfg line (startPos + 1) = Inr (result cfg 0)"
      by simp
    ultimately show ?thesis
      using True by (subst searchline_for.simps) simp
  next
    case False
    then show ?thesis
      by (subst searchline_for.simps) simp
  qed
qed

lemma searchline_for_first:
  assumes "pattern cfg \<noteq> []" and "startPos \<le> i" and "occursAt (pattern cfg) line i"
    and "\<forall>j. startPos \<le> j \<and> j < i \<longrightarrow> \<not> occursAt (pattern cfg) line j"
  shows "searchline_for cfg line startPos = Inr (result cfg (i + 1))"
  using assms
proof (induction cfg line startPos rule: searchline_for.induct)
  case (1 cfg line startPos)
  from "1.prems" have inside: "startPos < length line"
    using occursAt_inside [of "pattern cfg" line i] by simp
  show ?case
  proof (cases "startPos = i")
    case True
    with "1.prems" have "searchline_while cfg line startPos 0 = Inr (Some (result cfg (i + 1)))"
      by (simp add: searchline_while_start)
    with inside show ?thesis
      by (subst searchline_for.simps) simp
  next
    case False
    with "1.prems" have nothere: "searchline_while cfg line startPos 0 = Inr None"
      by (simp add: searchline_while_start)
    from False "1.prems" have "searchline_for cfg line (startPos + 1) = Inr (result cfg (i + 1))"
      using "1.IH" [OF inside nothere] by simp
    with nothere inside show ?thesis
      by (subst searchline_for.simps) simp
  qed
qed

lemma searchline_found:
  assumes "pattern cfg \<noteq> []" and "sublist (pattern cfg) L"
  shows "searchline cfg L = Inr (result cfg (Suc (LEAST i. occursAt (pattern cfg) L i)))"
proof -
  from assms obtain i0 where i0: "occursAt (pattern cfg) L i0"
    unfolding sublist_occursAt by blast
  let ?i = "LEAST i. occursAt (pattern cfg) L i"
  from i0 have here: "occursAt (pattern cfg) L ?i"
    by (rule LeastI)
  have before: "\<forall>j. 0 \<le> j \<and> j < ?i \<longrightarrow> \<not> occursAt (pattern cfg) L j"
    using not_less_Least by blast
  have "searchline_for cfg L 0 = Inr (result cfg (?i + 1))"
    using assms(1) _ here before by (rule searchline_for_first) simp
  then show ?thesis
    by (simp only: searchline_def Suc_eq_plus1)
qed

lemma searchline_not_found:
  assumes "pattern cfg \<noteq> []" and "\<not> sublist (pattern cfg) L"
  shows "searchline cfg L = Inr (result cfg 0)"
proof -
  from assms have "\<forall>j\<ge>0. \<not> occursAt (pattern cfg) L j"
    unfolding sublist_occursAt by blast
  with assms have "searchline_for cfg L 0 = Inr (result cfg 0)"
    by (intro searchline_for_none)
  then show ?thesis
    by (simp only: searchline_def)
qed

lemma searchline_decision:
  assumes "pattern cfg \<noteq> []"
  shows "\<exists>r. searchline cfg L = Inr r \<and> (0 < r) = (sublist (pattern cfg) L \<noteq> complement cfg)"
proof (cases "sublist (pattern cfg) L")
  case True
  with assms show ?thesis
    by (simp add: searchline_found)
next
  case False
  with assms show ?thesis
    by (simp add: searchline_not_found)
qed

lemma searchstream_while_run:
  assumes "pattern cfg \<noteq> []"
  shows "searchstream_while cfg ls out =
           Inr (out @ concat (map (\<lambda>l. l @ [newline])
                                  (filter (\<lambda>l. sublist (pattern cfg) l \<noteq> complement cfg) ls)))"
proof (induction ls arbitrary: out)
  case Nil
  show ?case by simp
next
  case (Cons l ls)
  from assms obtain r where "searchline cfg l = Inr r"
    and "(0 < r) = (sublist (pattern cfg) l \<noteq> complement cfg)"
    using searchline_decision by blast
  with Cons show ?case
    by simp
qed

section \<open>Selected lines\<close>

lemma line_selected_sublist:
  assumes "pattern cfg \<noteq> []" and "\<not> complement cfg"
  shows "line_selected cfg l = sublist (pattern cfg) l"
proof
  assume "line_selected cfg l"
  with assms obtain p where "occursAt (pattern cfg) l p"
    by (auto simp: line_selected_def list_ex_iff)
  then show "sublist (pattern cfg) l"
    unfolding sublist_occursAt ..
next
  assume "sublist (pattern cfg) l"
  then obtain p where p: "occursAt (pattern cfg) l p"
    unfolding sublist_occursAt ..
  with assms have "p < length l"
    by (simp add: occursAt_inside)
  with p assms show "line_selected cfg l"
    by (auto simp: line_selected_def list_ex_iff)
qed

lemma line_selected_Nil [simp]: "\<not> line_selected cfg []"
  by (simp add: line_selected_def)

section \<open>The buffer scanner\<close>


lemma match_while_bounded:
  assumes "matchLen < length (pattern cfg)"
    and "\<forall>k<matchLen. data ! (p + k) = pattern cfg ! k"
    and "p + matchLen \<le> e" and "e < length data" and "data ! e \<notin> set (pattern cfg)"
  shows "match_while cfg data p matchLen =
           Inr (occursAt (pattern cfg) (take e data) p \<noteq> complement cfg)"
  using assms
proof (induction cfg data p matchLen rule: match_while.induct)
  case (1 cfg data p matchLen)
  let ?P = "pattern cfg"
  from "1.prems" have rd: "byte_at data (p + matchLen) = Inr (data ! (p + matchLen))"
    "byte_at ?P matchLen = Inr (?P ! matchLen)"
    by simp_all
  show ?case
  proof (cases "data ! (p + matchLen) = ?P ! matchLen")
    case False
    with "1.prems" have "\<not> occursAt ?P (take e data) p"
      by (auto simp: occursAt_nth)
    with False rd show ?thesis
      by (subst match_while.simps) simp
  next
    case same: True
    with "1.prems" have "p + matchLen \<noteq> e"
      by (metis nth_mem)
    with "1.prems" have further: "p + (matchLen + 1) \<le> e"
      by simp
    have upto: "\<forall>k<matchLen + 1. data ! (p + k) = ?P ! k"
      using same "1.prems"(2) by (auto simp: less_Suc_eq)
    show ?thesis
    proof (cases "matchLen + 1 = patternSize cfg")
      case True
      with upto further "1.prems" have "occursAt ?P (take e data) p"
        by (auto simp: occursAt_nth patternSize_def)
      with True same rd show ?thesis
        by (subst match_while.simps) simp
    next
      case False
      with "1.prems" have "matchLen + 1 < length ?P"
        by (simp add: patternSize_def)
      with "1.IH" [OF rd(1) rd(2) same False] upto further "1.prems"
      have "match_while cfg data p (matchLen + 1) =
              Inr (occursAt ?P (take e data) p \<noteq> complement cfg)"
        by simp
      with False same rd show ?thesis
        by (subst match_while.simps) simp
    qed
  qed
qed

lemma match_bounded:
  assumes "pattern cfg \<noteq> []" and "p \<le> e" and "e < length data"
    and "data ! e \<notin> set (pattern cfg)"
  shows "match cfg data p = Inr (occursAt (pattern cfg) (take e data) p \<noteq> complement cfg)"
  unfolding match_def using assms by (intro match_while_bounded) auto

lemma searchFile_line_run:
  assumes "pattern cfg \<noteq> []" and "iter \<le> e" and "e \<le> sz" and "e < length data"
    and "\<forall>k. iter \<le> k \<and> k < e \<longrightarrow> data ! k \<noteq> newline"
    and "data ! e = newline \<or> e = sz"
    and "data ! e \<notin> set (pattern cfg)"
  shows "searchFile_line cfg data sz iter matchFound =
           Inr (e, matchFound \<or>
                   (\<exists>p. iter \<le> p \<and> p < e \<and>
                        occursAt (pattern cfg) (take e data) p \<noteq> complement cfg))"
  using assms
proof (induction cfg data sz iter matchFound rule: searchFile_line.induct)
  case (1 cfg data sz iter matchFound)
  let ?sel = "\<lambda>p. occursAt (pattern cfg) (take e data) p \<noteq> complement cfg"
  from "1.prems" have rd: "byte_at data iter = Inr (data ! iter)"
    by simp
  show ?case
  proof (cases "iter = e")
    case True
    with "1.prems" rd show ?thesis
      by (subst searchFile_line.simps) auto
  next
    case False
    with "1.prems" have go: "data ! iter \<noteq> newline \<and> iter < sz" and next_le: "iter + 1 \<le> e"
      by auto
    have rest: "\<forall>k. iter + 1 \<le> k \<and> k < e \<longrightarrow> data ! k \<noteq> newline"
      using "1.prems" by auto
    have split: "(\<exists>p. iter \<le> p \<and> p < e \<and> ?sel p) \<longleftrightarrow> ?sel iter \<or> (\<exists>p. iter + 1 \<le> p \<and> p < e \<and> ?sel p)"
      using next_le by (metis Suc_eq_plus1 less_eq_Suc_le order_refl not_less_eq_eq le_eq_less_or_eq)
    show ?thesis
    proof (cases matchFound)
      case True
      with "1.IH"(2) [OF rd go _ "1.prems"(1) next_le "1.prems"(3,4) rest "1.prems"(6,7)]
      have "searchFile_line cfg data sz (iter + 1) matchFound = Inr (e, True)"
        by simp
      with True rd go show ?thesis
        by (subst searchFile_line.simps) simp
    next
      case False
      from "1.prems" have m: "match cfg data iter = Inr (?sel iter)"
        by (intro match_bounded) auto
      from "1.IH"(1) [OF rd go False m "1.prems"(1) next_le "1.prems"(3,4) rest "1.prems"(6,7)]
      have "searchFile_line cfg data sz (iter + 1) (?sel iter) =
              Inr (e, ?sel iter \<or> (\<exists>p. iter + 1 \<le> p \<and> p < e \<and> ?sel p))" .
      with False rd go m split show ?thesis
        by (subst searchFile_line.simps) simp
    qed
  qed
qed

lemma occursAt_shift:
  assumes "iter \<le> e" and "e \<le> length data"
  shows "occursAt P (take (e - iter) (drop iter data)) q \<longleftrightarrow> occursAt P (take e data) (iter + q)"
  using assms by (auto simp: occursAt_nth add.assoc)

lemma line_selected_shift:
  assumes "iter \<le> e" and "e \<le> length data"
  shows "line_selected cfg (take (e - iter) (drop iter data)) \<longleftrightarrow>
           (\<exists>p. iter \<le> p \<and> p < e \<and> occursAt (pattern cfg) (take e data) p \<noteq> complement cfg)"
    (is "?lhs = ?rhs")
proof
  assume ?lhs
  then obtain q where "q < e - iter"
    and "occursAt (pattern cfg) (take (e - iter) (drop iter data)) q \<noteq> complement cfg"
    using assms by (auto simp: line_selected_def list_ex_iff)
  then have "iter \<le> iter + q \<and> iter + q < e
      \<and> occursAt (pattern cfg) (take e data) (iter + q) \<noteq> complement cfg"
    using assms by (simp add: occursAt_shift)
  then show ?rhs ..
next
  assume ?rhs
  then obtain p where p: "iter \<le> p" "p < e"
    "occursAt (pattern cfg) (take e data) p \<noteq> complement cfg"
    by blast
  then have "occursAt (pattern cfg) (take (e - iter) (drop iter data)) (p - iter) \<noteq> complement cfg"
    using assms by (simp add: occursAt_shift)
  with p assms show ?lhs
    by (auto simp: line_selected_def list_ex_iff intro!: bexI [of _ "p - iter"])
qed

lemma takeWhile_holds: "j < length (takeWhile Q xs) \<Longrightarrow> Q (xs ! j)"
proof -
  assume j: "j < length (takeWhile Q xs)"
  then have "takeWhile Q xs ! j \<in> set (takeWhile Q xs)"
    by simp
  then have "Q (takeWhile Q xs ! j)"
    by (rule set_takeWhileD [THEN conjunct2])
  with j show ?thesis
    by (simp add: takeWhile_nth)
qed

lemma written_Nil [simp]: "written cfg fpath [] = []"
  by (simp add: written_def)

lemma written_Cons [simp]:
  "written cfg fpath (l # ls) =
     (if recursive cfg then fpath @ '':'' else []) @ l @ [newline] @ written cfg fpath ls"
  by (simp add: written_def)

lemma searchFile_while_run:
  assumes "pattern cfg \<noteq> []" and "newline \<notin> set (pattern cfg)" and "sz \<le> length data"
    and "sz = 0 \<or> data ! (sz - 1) = newline
           \<or> (sz < length data \<and> data ! sz \<notin> set (pattern cfg))"
  shows "searchFile_while cfg data sz fpath iter out =
           Inr (out @ written cfg fpath
                        (filter (line_selected cfg) (buffer_lines (drop iter (take sz data)))))"
  using assms
proof (induction cfg data sz fpath iter out rule: searchFile_while.induct)
  case (1 cfg data sz fpath iter out)
  let ?b = "take sz data"
  let ?r = "drop iter ?b"
  let ?l = "takeWhile (\<lambda>x. x \<noteq> newline) ?r"
  let ?e = "iter + length ?l"
  show ?case
  proof (cases "iter < sz")
    case False
    with "1.prems" show ?thesis
      by (subst searchFile_while.simps) simp
  next
    case True
    with "1.prems" have len_r: "length ?r = sz - iter" and r_ne: "?r \<noteq> []"
      by auto
    have len_l: "length ?l \<le> sz - iter"
      using length_takeWhile_le [of _ ?r] len_r by simp
    with True have e_le: "?e \<le> sz"
      by simp
    have r_nth: "?r ! j = data ! (iter + j)" if "iter + j < sz" for j
      using that "1.prems" by simp
    have clean: "\<forall>k. iter \<le> k \<and> k < ?e \<longrightarrow> data ! k \<noteq> newline"
    proof (intro allI impI)
      fix k assume k: "iter \<le> k \<and> k < ?e"
      then have "k - iter < length ?l"
        by auto
      then have "?r ! (k - iter) \<noteq> newline"
        by (rule takeWhile_holds)
      moreover have "?r ! (k - iter) = data ! k"
        using r_nth [of "k - iter"] k e_le by simp
      ultimately show "data ! k \<noteq> newline"
        by simp
    qed
    have stop: "?e < length data \<and> (data ! ?e = newline \<or> ?e = sz) \<and> data ! ?e \<notin> set (pattern cfg)"
    proof (cases "length ?l < length ?r")
      case inner: True
      then have "\<not> (?r ! length ?l \<noteq> newline)"
        by (rule nth_length_takeWhile)
      moreover from inner len_r have "?e < sz"
        by simp
      ultimately show ?thesis
        using r_nth [of "length ?l"] "1.prems" by auto
    next
      case False
      with len_l len_r have whole: "length ?l = sz - iter"
        by simp
      with True have "?e = sz" and "sz - 1 - iter < length ?l" and "iter \<le> sz - 1" and "sz - 1 < ?e"
        by auto
      with clean have "data ! (sz - 1) \<noteq> newline"
        by blast
      with True "1.prems" \<open>?e = sz\<close> show ?thesis
        by auto
    qed
    let ?sel = "\<exists>p. iter \<le> p \<and> p < ?e \<and> occursAt (pattern cfg) (take ?e data) p \<noteq> complement cfg"
    from stop clean e_le "1.prems" have line: "searchFile_line cfg data sz iter False = Inr (?e, ?sel)"
      using searchFile_line_run [of cfg iter ?e sz data False] by simp
    have l_eq: "?l = take (?e - iter) (drop iter data)"
    proof -
      have "?l = take (length ?l) ?r"
        by (metis takeWhile_eq_take)
      also have "\<dots> = take (length ?l) (drop iter data)"
        using len_l by (simp add: drop_take min_def)
      finally show ?thesis
        by simp
    qed
    from stop have sel: "?sel \<longleftrightarrow> line_selected cfg ?l"
      by (subst l_eq, subst line_selected_shift) simp_all
    have rest: "tl (dropWhile (\<lambda>x. x \<noteq> newline) ?r) = drop (?e + 1) ?b"
      by (simp add: dropWhile_eq_drop tl_drop drop_Suc add.commute)
    from r_ne obtain c cs where "?r = c # cs"
      by (cases ?r) auto
    then have lines: "buffer_lines ?r = ?l # buffer_lines (drop (?e + 1) ?b)"
      using rest by (metis buffer_lines.simps(2))
    let ?out' = "if ?sel
          then out @ (if recursive cfg then fpath @ '':'' else [])
                   @ take (?e - iter) (drop iter data) @ [newline]
          else out"
    have IH: "searchFile_while cfg data sz fpath (?e + 1) ?out' =
            Inr (?out' @ written cfg fpath
                           (filter (line_selected cfg) (buffer_lines (drop (?e + 1) ?b))))"
      by (rule "1.IH" [OF True line refl "1.prems"])
    have "searchFile_while cfg data sz fpath iter out =
            searchFile_while cfg data sz fpath (?e + 1) ?out'"
      using True line by (subst searchFile_while.simps) simp
    also note IH
    also have "?out' @ written cfg fpath
                         (filter (line_selected cfg) (buffer_lines (drop (?e + 1) ?b))) =
               out @ written cfg fpath (filter (line_selected cfg) (buffer_lines ?r))"
      using sel lines l_eq by simp
    finally show ?thesis .
  qed
qed

lemma searchFile_run:
  assumes "pattern cfg \<noteq> []" and "newline \<notin> set (pattern cfg)" and "sz \<le> length data"
    and "sz = 0 \<or> data ! (sz - 1) = newline
           \<or> (sz < length data \<and> data ! sz \<notin> set (pattern cfg))"
  shows "searchFile cfg data sz fpath =
           Inr (written cfg fpath (filter (line_selected cfg) (buffer_lines (take sz data))))"
  unfolding searchFile_def using searchFile_while_run [OF assms, of fpath 0 "[]"] by simp


section \<open>Reads outside the buffer\<close>

lemma match_while_fault:
  assumes "matchLen < length (pattern cfg)" and "startPos + matchLen \<le> length data"
    and "match_while cfg data startPos matchLen = Inl f"
  shows "f = OutOfBounds (length data)"
  using assms
proof (induction cfg data startPos matchLen rule: match_while.induct)
  case (1 cfg data startPos matchLen)
  show ?case
  proof (cases "startPos + matchLen < length data")
    case False
    with "1.prems" show ?thesis
      by (subst (asm) match_while.simps) simp
  next
    case True
    with "1.prems" have rd: "byte_at data (startPos + matchLen) = Inr (data ! (startPos + matchLen))"
      "byte_at (pattern cfg) matchLen = Inr (pattern cfg ! matchLen)"
      by simp_all
    from "1.prems"(3) rd
    have again: "data ! (startPos + matchLen) = pattern cfg ! matchLen"
      "matchLen + 1 \<noteq> patternSize cfg"
      "match_while cfg data startPos (matchLen + 1) = Inl f"
      by (subst (asm) match_while.simps, simp split: if_splits)+
    with "1.prems" have "matchLen + 1 < length (pattern cfg)"
      by (simp add: patternSize_def)
    with "1.IH" [OF rd again(1,2)] again(3) True show ?thesis
      by simp
  qed
qed

lemma match_fault:
  "pattern cfg \<noteq> [] \<Longrightarrow> startPos \<le> length data \<Longrightarrow> match cfg data startPos = Inl f \<Longrightarrow>
     f = OutOfBounds (length data)"
  unfolding match_def by (rule match_while_fault) auto

lemma searchFile_line_fault:
  assumes "pattern cfg \<noteq> []" and "iter \<le> length data"
    and "searchFile_line cfg data sz iter matchFound = Inl f"
  shows "f = OutOfBounds (length data)"
  using assms
proof (induction cfg data sz iter matchFound rule: searchFile_line.induct)
  case (1 cfg data sz iter matchFound)
  show ?case
  proof (cases "iter < length data")
    case False
    with "1.prems" show ?thesis
      by (subst (asm) searchFile_line.simps) simp
  next
    case True
    then have rd: "byte_at data iter = Inr (data ! iter)"
      by simp
    from "1.prems"(3) rd have go: "data ! iter \<noteq> newline \<and> iter < sz"
      by (subst (asm) searchFile_line.simps) (simp split: if_splits)
    show ?thesis
    proof (cases matchFound)
      case True
      with "1.prems"(3) rd go have "searchFile_line cfg data sz (iter + 1) matchFound = Inl f"
        by (subst (asm) searchFile_line.simps) simp
      with "1.IH"(2) [OF rd go] True \<open>iter < length data\<close> "1.prems" show ?thesis
        by simp
    next
      case False
      show ?thesis
      proof (cases "match cfg data iter")
        case (Inl f')
        with "1.prems"(3) rd go False have "f = f'"
          by (subst (asm) searchFile_line.simps) simp
        with Inl "1.prems" show ?thesis
          by (simp add: match_fault)
      next
        case (Inr m)
        with "1.prems"(3) rd go False have "searchFile_line cfg data sz (iter + 1) m = Inl f"
          by (subst (asm) searchFile_line.simps) simp
        with "1.IH"(1) [OF rd go False Inr] True "1.prems" show ?thesis
          by simp
      qed
    qed
  qed
qed

lemma searchFile_line_stop:
  "searchFile_line cfg data sz iter matchFound = Inr (iter', found) \<Longrightarrow>
     iter' < length data \<and> (data ! iter' = newline \<or> sz \<le> iter')"
proof (induction cfg data sz iter matchFound rule: searchFile_line.induct)
  case (1 cfg data sz iter matchFound)
  then show ?case
    by (subst (asm) searchFile_line.simps)
       (auto simp: byte_at_def split: sum.splits if_splits)
qed

lemma searchFile_while_tight:
  assumes "pattern cfg \<noteq> []" and "sz = length data" and "iter < sz"
    and "data ! (sz - 1) \<noteq> newline"
  shows "searchFile_while cfg data sz fpath iter out = Inl (OutOfBounds sz)"
  using assms
proof (induction cfg data sz fpath iter out rule: searchFile_while.induct)
  case (1 cfg data sz fpath iter out)
  show ?case
  proof (cases "searchFile_line cfg data sz iter False")
    case (Inl f)
    with "1.prems" have "f = OutOfBounds sz"
      using searchFile_line_fault [of cfg iter data sz False f] by simp
    with Inl "1.prems" show ?thesis
      by (subst searchFile_while.simps) simp
  next
    case (Inr x)
    obtain iter' found where x: "x = (iter', found)"
      by (cases x)
    with Inr "1.prems" have "iter' < sz" and "data ! iter' = newline"
      using searchFile_line_stop [of cfg data sz iter False iter' found] by auto
    with "1.prems" have "iter' + 1 < sz"
      by (metis Suc_eq_plus1 Suc_lessI diff_Suc_1)
    with "1.IH" [OF "1.prems"(3) Inr x [symmetric] "1.prems"(1,2) _ "1.prems"(4)]
    have "searchFile_while cfg data sz fpath (iter' + 1)
            (if found then out @ (if recursive cfg then fpath @ '':'' else [])
                               @ take (iter' - iter) (drop iter data) @ [newline]
             else out) = Inl (OutOfBounds sz)"
      by simp
    with Inr x "1.prems" show ?thesis
      by (subst searchFile_while.simps) simp
  qed
qed

lemma searchFile_line_tight:
  assumes "sz = length data" and "iter \<le> sz"
    and "\<forall>k. iter \<le> k \<and> k < sz \<longrightarrow> data ! k \<noteq> newline"
  shows "searchFile_line cfg data sz iter True = Inl (OutOfBounds sz)"
  using assms
proof (induction "sz - iter" arbitrary: iter)
  case 0
  then show ?case
    by (subst searchFile_line.simps) simp
next
  case (Suc n)
  then have "searchFile_line cfg data sz (iter + 1) True = Inl (OutOfBounds sz)"
    by auto
  with Suc.prems Suc.hyps(2) show ?case
    by (subst searchFile_line.simps) auto
qed

lemma match_while_prefix:
  assumes "length data < length (pattern cfg)" and "matchLen \<le> length data"
    and "\<forall>k<length data. data ! k = pattern cfg ! k"
  shows "match_while cfg data 0 matchLen = Inl (OutOfBounds (length data))"
  using assms
proof (induction "length data - matchLen" arbitrary: matchLen)
  case 0
  then show ?case
    by (subst match_while.simps) simp
next
  case (Suc n)
  then have "match_while cfg data 0 (matchLen + 1) = Inl (OutOfBounds (length data))"
    by auto
  with Suc.prems Suc.hyps(2) show ?case
    by (subst match_while.simps) (auto simp: patternSize_def)
qed

lemma match_butlast:
  "pattern cfg \<noteq> [] \<Longrightarrow>
     match cfg (butlast (pattern cfg)) 0 = Inl (OutOfBounds (length (pattern cfg) - 1))"
  unfolding match_def
  using match_while_prefix [of "butlast (pattern cfg)" cfg 0]
  by (simp add: nth_butlast)

section \<open>Lines of a buffer without final newline\<close>

lemma buffer_lines_unfold:
  "buf \<noteq> [] \<Longrightarrow>
     buffer_lines buf =
       takeWhile (\<lambda>x. x \<noteq> newline) buf # buffer_lines (tl (dropWhile (\<lambda>x. x \<noteq> newline) buf))"
  by (cases buf) (simp_all del: takeWhile.simps dropWhile.simps)

lemma buffer_lines_terminated:
  "buf \<noteq> [] \<Longrightarrow> last buf \<noteq> newline \<Longrightarrow> buffer_lines (buf @ [newline]) = buffer_lines buf"
proof (induction buf rule: buffer_lines.induct)
  case 1
  then show ?case by simp
next
  case (2 c cs)
  let ?buf = "c # cs"
  let ?Q = "\<lambda>x. x \<noteq> newline"
  have unf: "buffer_lines (?buf @ [newline]) =
      takeWhile ?Q (?buf @ [newline]) # buffer_lines (tl (dropWhile ?Q (?buf @ [newline])))"
    by (rule buffer_lines_unfold) simp
  have unf': "buffer_lines ?buf = takeWhile ?Q ?buf # buffer_lines (tl (dropWhile ?Q ?buf))"
    by (rule buffer_lines_unfold) simp
  show ?case
  proof (cases "newline \<in> set ?buf")
    case False
    then have all: "\<And>x. x \<in> set ?buf \<Longrightarrow> ?Q x"
      by blast
    have "takeWhile ?Q (?buf @ [newline]) = ?buf @ takeWhile ?Q [newline]"
      using all by (rule takeWhile_append2)
    moreover have "dropWhile ?Q (?buf @ [newline]) = dropWhile ?Q [newline]"
      using all by (rule dropWhile_append2)
    moreover have "takeWhile ?Q ?buf = ?buf"
      using all by (rule takeWhile_eq_all_conv [THEN iffD2, OF ballI])
    moreover have "dropWhile ?Q ?buf = []"
      using all by (rule dropWhile_eq_Nil_conv [THEN iffD2, OF ballI])
    ultimately show ?thesis
      unfolding unf unf' by simp
  next
    case True
    then obtain x where x: "x \<in> set ?buf" "\<not> ?Q x"
      by blast
    then have tw: "takeWhile ?Q (?buf @ [newline]) = takeWhile ?Q ?buf"
      by (rule takeWhile_append1)
    from x have dw: "dropWhile ?Q (?buf @ [newline]) = dropWhile ?Q ?buf @ [newline]"
      by (rule dropWhile_append1)
    from x have ne: "dropWhile ?Q ?buf \<noteq> []"
      unfolding dropWhile_eq_Nil_conv by blast
    let ?rest = "tl (dropWhile ?Q ?buf)"
    have rest_eq: "tl (dropWhile ?Q (?buf @ [newline])) = ?rest @ [newline]"
      unfolding dw using ne by simp
    have hd_nl: "hd (dropWhile ?Q ?buf) = newline"
      using hd_dropWhile [OF ne] by simp
    have last_dw: "last (dropWhile ?Q ?buf) = last ?buf"
    proof -
      have "?buf = takeWhile ?Q ?buf @ dropWhile ?Q ?buf"
        by (rule takeWhile_dropWhile_id [symmetric])
      then have "last ?buf = last (takeWhile ?Q ?buf @ dropWhile ?Q ?buf)"
        by (rule arg_cong)
      also have "\<dots> = last (dropWhile ?Q ?buf)"
        using ne by (rule last_appendR)
      finally show ?thesis ..
    qed
    have rest_ne: "?rest \<noteq> []"
    proof
      assume "?rest = []"
      with ne have "dropWhile ?Q ?buf = [hd (dropWhile ?Q ?buf)]"
        by (cases "dropWhile ?Q ?buf") simp_all
      then have "last (dropWhile ?Q ?buf) = hd (dropWhile ?Q ?buf)"
        by (metis last.simps)
      with last_dw hd_nl "2.prems" show False
        by simp
    qed
    then have "last ?rest = last (dropWhile ?Q ?buf)"
      using ne by (cases "dropWhile ?Q ?buf") simp_all
    with last_dw "2.prems" have "last ?rest \<noteq> newline"
      by simp
    with rest_ne have "buffer_lines (?rest @ [newline]) = buffer_lines ?rest"
      by (rule "2.IH")
    then show ?thesis
      unfolding unf unf' tw rest_eq by simp
  qed
qed

lemma buffer_lines_last:
  assumes "buf \<noteq> []" and "last buf \<noteq> newline"
  shows "buffer_lines buf \<noteq> [] \<and>
         last (buffer_lines buf) = rev (takeWhile (\<lambda>x. x \<noteq> newline) (rev buf))"
  using assms
proof (induction buf rule: buffer_lines.induct)
  case 1
  then show ?case by simp
next
  case (2 c cs)
  define b where "b = c # cs"
  let ?Q = "\<lambda>x. x \<noteq> newline"
  let ?rest = "tl (dropWhile ?Q b)"
  have b_ne: "b \<noteq> []" and b_last: "last b \<noteq> newline"
    using "2.prems" by (simp_all add: b_def)
  have IH: "?rest \<noteq> [] \<Longrightarrow> last ?rest \<noteq> newline \<Longrightarrow>
      buffer_lines ?rest \<noteq> [] \<and> last (buffer_lines ?rest) = rev (takeWhile ?Q (rev ?rest))"
    using "2.IH" unfolding b_def .
  have unf: "buffer_lines b = takeWhile ?Q b # buffer_lines ?rest"
    using b_ne by (rule buffer_lines_unfold)
  have "buffer_lines b \<noteq> [] \<and> last (buffer_lines b) = rev (takeWhile ?Q (rev b))"
  proof (cases "newline \<in> set b")
    case False
    then have all: "\<And>x. x \<in> set b \<Longrightarrow> ?Q x"
      by blast
    have tw: "takeWhile ?Q b = b"
      using all by (rule takeWhile_eq_all_conv [THEN iffD2, OF ballI])
    have dw: "dropWhile ?Q b = []"
      using all by (rule dropWhile_eq_Nil_conv [THEN iffD2, OF ballI])
    have twr: "takeWhile ?Q (rev b) = rev b"
      using all by (intro takeWhile_eq_all_conv [THEN iffD2] ballI) simp
    have "buffer_lines b = [b]"
      unfolding unf tw dw by simp
    then show ?thesis
      unfolding twr by simp
  next
    case True
    then have ne: "dropWhile ?Q b \<noteq> []"
      unfolding dropWhile_eq_Nil_conv by blast
    have hd_nl: "hd (dropWhile ?Q b) = newline"
      using hd_dropWhile [OF ne] by simp
    have dw_eq: "dropWhile ?Q b = newline # ?rest"
      using ne hd_nl by (cases "dropWhile ?Q b") simp_all
    have recompose: "takeWhile ?Q b @ newline # ?rest = b"
      by (simp only: dw_eq [symmetric] takeWhile_dropWhile_id)
    have "last (takeWhile ?Q b @ newline # ?rest) = last (newline # ?rest)"
      by simp
    then have last_b: "last (newline # ?rest) = last b"
      by (simp only: recompose)
    have rest_ne: "?rest \<noteq> []"
    proof
      assume "?rest = []"
      then have "last (newline # ?rest) = newline"
        by simp
      with last_b b_last show False
        by simp
    qed
    then have "last (newline # ?rest) = last ?rest"
      by simp
    with last_b b_last have "last ?rest \<noteq> newline"
      by simp
    with rest_ne
    have IH': "buffer_lines ?rest \<noteq> [] \<and> last (buffer_lines ?rest) = rev (takeWhile ?Q (rev ?rest))"
      by (rule IH)
    have "rev (takeWhile ?Q b @ newline # ?rest) = rev ?rest @ newline # rev (takeWhile ?Q b)"
      by simp
    then have "rev ?rest @ newline # rev (takeWhile ?Q b) = rev b"
      by (simp only: recompose)
    then have "takeWhile ?Q (rev ?rest @ newline # rev (takeWhile ?Q b)) = takeWhile ?Q (rev b)"
      by (rule arg_cong)
    then have "takeWhile ?Q (rev b) = takeWhile ?Q (rev ?rest @ newline # rev (takeWhile ?Q b))"
      by (rule sym)
    also have "\<dots> = takeWhile ?Q (rev ?rest)"
    proof (cases "newline \<in> set ?rest")
      case True
      then have "newline \<in> set (rev ?rest)" "\<not> ?Q newline"
        by simp_all
      then show ?thesis
        by (rule takeWhile_append1)
    next
      case False
      have all: "?Q x" if "x \<in> set (rev ?rest)" for x
      proof
        assume "x = newline"
        with that have "newline \<in> set ?rest"
          by (simp only: set_rev)
        with False show False ..
      qed
      have "takeWhile ?Q (rev ?rest @ newline # rev (takeWhile ?Q b)) =
              rev ?rest @ takeWhile ?Q (newline # rev (takeWhile ?Q b))"
        using all by (rule takeWhile_append2)
      also have "takeWhile ?Q (newline # rev (takeWhile ?Q b)) = []"
        by (simp only: takeWhile.simps simp_thms if_False)
      also have "rev ?rest @ [] = rev ?rest"
        by (rule append_Nil2)
      also have "rev ?rest = takeWhile ?Q (rev ?rest)"
        using all by (rule takeWhile_eq_all_conv [THEN iffD2, OF ballI, symmetric])
      finally show ?thesis .
    qed
    finally have "takeWhile ?Q (rev b) = takeWhile ?Q (rev ?rest)" .
    with IH' show ?thesis
      unfolding unf by simp
  qed
  then show ?case
    unfolding b_def .
qed

section \<open>What the buffer scanner writes, whatever the pattern\<close>

lemma searchFile_line_span:
  "searchFile_line cfg data sz iter matchFound = Inr (iter', found) \<Longrightarrow>
     (\<forall>k. iter \<le> k \<and> k < iter' \<longrightarrow> data ! k \<noteq> newline \<and> k < sz)
     \<and> iter \<le> iter' \<and> iter' < length data
     \<and> (data ! iter' = newline \<or> sz \<le> iter')
     \<and> (found \<longrightarrow> matchFound \<or> iter < iter')"
proof (induction cfg data sz iter matchFound rule: searchFile_line.induct)
  case (1 cfg data sz iter matchFound)
  show ?case
  proof (cases "iter < length data")
    case False
    with "1.prems" show ?thesis
      by (subst (asm) searchFile_line.simps) simp
  next
    case inside: True
    then have rd: "byte_at data iter = Inr (data ! iter)"
      by simp
    show ?thesis
    proof (cases "data ! iter \<noteq> newline \<and> iter < sz")
      case False
      with "1.prems" rd have "iter' = iter \<and> found = matchFound"
        by (subst (asm) searchFile_line.simps) auto
      with False inside show ?thesis
        by auto
    next
      case go: True
      have step: "(\<forall>k. iter \<le> k \<and> k < iter' \<longrightarrow> data ! k \<noteq> newline \<and> k < sz)
          \<and> iter \<le> iter' \<and> iter' < length data
          \<and> (data ! iter' = newline \<or> sz \<le> iter') \<and> iter < iter'"
        if rec: "(\<forall>k. iter + 1 \<le> k \<and> k < iter' \<longrightarrow> data ! k \<noteq> newline \<and> k < sz)
          \<and> iter + 1 \<le> iter' \<and> iter' < length data
          \<and> (data ! iter' = newline \<or> sz \<le> iter')"
      proof -
        have "data ! k \<noteq> newline \<and> k < sz" if "iter \<le> k \<and> k < iter'" for k
        proof (cases "k = iter")
          case True
          with go show ?thesis by simp
        next
          case False
          with that have "iter + 1 \<le> k \<and> k < iter'"
            by simp
          with rec show ?thesis
            by blast
        qed
        with rec show ?thesis
          by simp
      qed
      show ?thesis
      proof (cases matchFound)
        case True
        with "1.prems" rd go
        have "searchFile_line cfg data sz (iter + 1) matchFound = Inr (iter', found)"
          by (subst (asm) searchFile_line.simps) simp
        with True have "(\<forall>k. iter + 1 \<le> k \<and> k < iter' \<longrightarrow> data ! k \<noteq> newline \<and> k < sz)
          \<and> iter + 1 \<le> iter' \<and> iter' < length data
          \<and> (data ! iter' = newline \<or> sz \<le> iter')"
          using "1.IH"(2) [OF rd go] by blast
        from step [OF this] True show ?thesis
          by blast
      next
        case False
        with "1.prems" rd go obtain m where m: "match cfg data iter = Inr m"
          and "searchFile_line cfg data sz (iter + 1) m = Inr (iter', found)"
          by (subst (asm) searchFile_line.simps) (auto split: sum.splits)
        then have "(\<forall>k. iter + 1 \<le> k \<and> k < iter' \<longrightarrow> data ! k \<noteq> newline \<and> k < sz)
          \<and> iter + 1 \<le> iter' \<and> iter' < length data
          \<and> (data ! iter' = newline \<or> sz \<le> iter')"
          using "1.IH"(1) [OF rd go False m] by blast
        from step [OF this] show ?thesis
          by blast
      qed
    qed
  qed
qed

lemma takeWhile_length_first:
  assumes "n \<le> length xs" and "\<forall>j<n. Q (xs ! j)" and "n = length xs \<or> \<not> Q (xs ! n)"
  shows "length (takeWhile Q xs) = n"
proof -
  have "takeWhile Q xs = take n xs"
    using assms by (intro takeWhile_eq_take_P_nth) auto
  with assms(1) show ?thesis
    by simp
qed

lemma searchFile_line_end:
  assumes "searchFile_line cfg data sz iter matchFound = Inr (iter', found)"
    and "iter \<le> sz" and "sz \<le> length data"
  shows "iter' = iter + length (takeWhile (\<lambda>x. x \<noteq> newline) (drop iter (take sz data)))"
proof -
  let ?r = "drop iter (take sz data)"
  from searchFile_line_span [OF assms(1)]
  have clean: "\<forall>k. iter \<le> k \<and> k < iter' \<longrightarrow> data ! k \<noteq> newline \<and> k < sz"
    and le: "iter \<le> iter'" and stop: "data ! iter' = newline \<or> sz \<le> iter'"
    by blast+
  have iter'_le: "iter' \<le> sz"
  proof (rule ccontr)
    assume "\<not> iter' \<le> sz"
    with assms(2) have "iter \<le> sz \<and> sz < iter'"
      by simp
    with clean show False
      by blast
  qed
  have len_r: "length ?r = sz - iter"
    using assms(3) by simp
  have nth_r: "?r ! j = data ! (iter + j)" if "iter + j < sz" for j
    using that assms(3) by simp
  have "length (takeWhile (\<lambda>x. x \<noteq> newline) ?r) = iter' - iter"
  proof (rule takeWhile_length_first)
    show "iter' - iter \<le> length ?r"
      using iter'_le len_r by simp
    show "\<forall>j<iter' - iter. ?r ! j \<noteq> newline"
    proof (intro allI impI)
      fix j assume j: "j < iter' - iter"
      with iter'_le have "iter + j < sz"
        by simp
      then have "?r ! j = data ! (iter + j)"
        by (rule nth_r)
      moreover from j clean have "data ! (iter + j) \<noteq> newline"
        by simp
      ultimately show "?r ! j \<noteq> newline"
        by simp
    qed
    show "iter' - iter = length ?r \<or> \<not> ?r ! (iter' - iter) \<noteq> newline"
    proof (cases "iter' = sz")
      case True
      with len_r show ?thesis by simp
    next
      case False
      with iter'_le have lt: "iter' < sz"
        by simp
      with stop have "data ! iter' = newline"
        by simp
      moreover from lt le have "?r ! (iter' - iter) = data ! (iter + (iter' - iter))"
        by (intro nth_r) simp
      ultimately show ?thesis
        using le by simp
    qed
  qed
  with le show ?thesis
    by simp
qed

lemma searchFile_while_structure:
  assumes "searchFile_while cfg data sz fpath iter out = Inr res" and "sz \<le> length data"
  shows "\<exists>ls. subseq ls (buffer_lines (drop iter (take sz data))) \<and> [] \<notin> set ls
              \<and> res = out @ written cfg fpath ls"
  using assms
proof (induction cfg data sz fpath iter out rule: searchFile_while.induct)
  case (1 cfg data sz fpath iter out)
  let ?b = "take sz data"
  let ?r = "drop iter ?b"
  let ?Q = "\<lambda>x. x \<noteq> newline"
  let ?l = "takeWhile ?Q ?r"
  show ?case
  proof (cases "iter < sz")
    case False
    with "1.prems" have "res = out \<and> ?r = []"
      by (subst (asm) searchFile_while.simps) auto
    then have "subseq [] (buffer_lines ?r) \<and> [] \<notin> set [] \<and> res = out @ written cfg fpath []"
      by simp
    then show ?thesis ..
  next
    case True
    from "1.prems"(1) True obtain iter' found
      where line: "searchFile_line cfg data sz iter False = Inr (iter', found)"
      by (subst (asm) searchFile_while.simps) (auto split: sum.splits)
    let ?out' = "if found
          then out @ (if recursive cfg then fpath @ '':'' else [])
                   @ take (iter' - iter) (drop iter data) @ [newline]
          else out"
    from "1.prems"(1) True line
    have rest_run: "searchFile_while cfg data sz fpath (iter' + 1) ?out' = Inr res"
      by (subst (asm) searchFile_while.simps) simp
    from line True "1.prems"(2) have e: "iter' = iter + length ?l"
      by (intro searchFile_line_end) simp_all
    from searchFile_line_span [OF line] have nonempty: "found \<longrightarrow> iter < iter'"
      by simp
    have len_l: "length ?l \<le> sz - iter"
      using length_takeWhile_le [of ?Q ?r] "1.prems"(2) by simp
    have l_eq: "?l = take (iter' - iter) (drop iter data)"
    proof -
      have "?l = take (length ?l) ?r"
        by (metis takeWhile_eq_take)
      also have "\<dots> = take (length ?l) (drop iter data)"
        using len_l by (simp add: drop_take min_def)
      finally show ?thesis
        using e by simp
    qed
    from True "1.prems"(2) have r_ne: "?r \<noteq> []"
      by simp
    have rest: "tl (dropWhile ?Q ?r) = drop (iter' + 1) ?b"
      unfolding e by (simp add: dropWhile_eq_drop tl_drop drop_Suc add.commute)
    have lines: "buffer_lines ?r = ?l # buffer_lines (drop (iter' + 1) ?b)"
      using buffer_lines_unfold [OF r_ne] unfolding rest .
    from "1.IH" [OF True line refl rest_run "1.prems"(2)]
    obtain ls where ls: "subseq ls (buffer_lines (drop (iter' + 1) ?b))" "[] \<notin> set ls"
      "res = ?out' @ written cfg fpath ls"
      by blast
    show ?thesis
    proof (cases found)
      case True
      with nonempty e have "?l \<noteq> []"
        by auto
      with ls True l_eq lines
      have "subseq (?l # ls) (buffer_lines ?r) \<and> [] \<notin> set (?l # ls)
          \<and> res = out @ written cfg fpath (?l # ls)"
        by auto
      then show ?thesis ..
    next
      case False
      with ls lines
      have "subseq ls (buffer_lines ?r) \<and> [] \<notin> set ls \<and> res = out @ written cfg fpath ls"
        by auto
      then show ?thesis ..
    qed
  qed
qed


lemma searchFile_structure:
  assumes "searchFile cfg data sz fpath = Inr out" and "sz \<le> length data"
  shows "\<exists>ls. subseq ls (buffer_lines (take sz data)) \<and> [] \<notin> set ls
              \<and> out = written cfg fpath ls"
  using searchFile_while_structure [of cfg data sz fpath 0 "[]" out] assms
  by (simp add: searchFile_def)

lemma modes_agree_without_inversion:
  assumes "pattern cfg \<noteq> []" and "newline \<notin> set (pattern cfg)" and "sz \<le> length data"
    and "sz = 0 \<or> data ! (sz - 1) = newline
           \<or> (sz < length data \<and> data ! sz \<notin> set (pattern cfg))"
    and "\<not> complement cfg" and "\<not> recursive cfg"
  shows "searchFile cfg data sz fpath = searchstream cfg (buffer_lines (take sz data))"
proof -
  have "line_selected cfg = (\<lambda>l. sublist (pattern cfg) l \<noteq> complement cfg)"
  proof
    fix l
    from assms(1,5) have "line_selected cfg l = sublist (pattern cfg) l"
      by (rule line_selected_sublist)
    with assms(5) show "line_selected cfg l = (sublist (pattern cfg) l \<noteq> complement cfg)"
      by simp
  qed
  with searchFile_run [OF assms(1-4), of fpath] assms(6) show ?thesis
    unfolding searchstream_def searchstream_while_run [OF assms(1)]
    by (simp add: written_def)
qed

lemma stream_inversion_law:
  assumes "pattern cfg \<noteq> []"
  shows "\<exists>r r'. searchline (cfg\<lparr>complement := False\<rparr>) L = Inr r
              \<and> searchline (cfg\<lparr>complement := True\<rparr>) L = Inr r'
              \<and> (r' \<noteq> 0) = (\<not> r \<noteq> 0)"
proof -
  from assms have "pattern (cfg\<lparr>complement := False\<rparr>) \<noteq> []"
    and "pattern (cfg\<lparr>complement := True\<rparr>) \<noteq> []"
    by simp_all
  from searchline_decision [OF this(1), of L] searchline_decision [OF this(2), of L]
  show ?thesis
    by auto
qed

lemma searchFile_line_tight_any:
  assumes "pattern cfg \<noteq> []" and "sz = length data" and "iter \<le> sz"
    and "\<forall>k. iter \<le> k \<and> k < sz \<longrightarrow> data ! k \<noteq> newline"
  shows "searchFile_line cfg data sz iter matchFound = Inl (OutOfBounds sz)"
proof (cases "searchFile_line cfg data sz iter matchFound")
  case (Inl f)
  with assms(1-3) have "f = OutOfBounds (length data)"
    by (intro searchFile_line_fault [of cfg iter data sz matchFound f]) simp_all
  with Inl assms(2) show ?thesis
    by simp
next
  case (Inr x)
  obtain iter' found where "x = (iter', found)"
    by (cases x)
  with Inr have "searchFile_line cfg data sz iter matchFound = Inr (iter', found)"
    by simp
  from searchFile_line_span [OF this]
  have "iter \<le> iter'" and "iter' < length data" and "data ! iter' = newline \<or> sz \<le> iter'"
    by blast+
  with assms(2,4) have False
    by auto
  then show ?thesis ..
qed

lemma searchFile_line_open_end:
  assumes "sz < length data" and "iter \<le> sz"
    and "\<forall>k. iter \<le> k \<and> k < sz \<longrightarrow> data ! k \<noteq> newline"
  shows "searchFile_line cfg data sz iter True = Inr (sz, True)"
  using assms
proof (induction "sz - iter" arbitrary: iter)
  case 0
  then show ?case
    by (subst searchFile_line.simps) simp
next
  case (Suc n)
  then have "searchFile_line cfg data sz (iter + 1) True = Inr (sz, True)"
    by auto
  with Suc.prems Suc.hyps(2) show ?case
    by (subst searchFile_line.simps) auto
qed

text \<open>
  What the scan of a buffer without final newline gives when a readable byte \<open>c\<close>
  follows the buffer: the line loop, started anywhere in the last line, stops at index
  \<^verbatim>\<open>size\<close>, whatever that byte is; for a non-empty pattern without newline byte, when
  \<open>c\<close> is not a byte of the pattern, the scan equals the scan of the buffer with a newline
  appended.
\<close>

lemma end_of_buffer_with_readable_byte:
  assumes "buf \<noteq> []" and "last buf \<noteq> newline"
  shows "(\<forall>iter. iter \<le> length buf \<and> (\<forall>k. iter \<le> k \<and> k < length buf \<longrightarrow> buf ! k \<noteq> newline) \<longrightarrow>
            searchFile_line cfg (buf @ c # pad) (length buf) iter True = Inr (length buf, True))
       \<and> (pattern cfg \<noteq> [] \<and> newline \<notin> set (pattern cfg) \<and> c \<notin> set (pattern cfg) \<longrightarrow>
            searchFile cfg (buf @ c # pad) (length buf) fpath =
              searchFile cfg (buf @ [newline]) (length buf + 1) fpath
          \<and> searchFile cfg (buf @ c # pad) (length buf) fpath =
              Inr (written cfg fpath (filter (line_selected cfg) (buffer_lines buf))))
       \<and> buffer_lines buf \<noteq> []
       \<and> last (buffer_lines buf) = rev (takeWhile (\<lambda>x. x \<noteq> newline) (rev buf))"
proof (intro conjI allI impI)
  fix iter
  assume "iter \<le> length buf \<and> (\<forall>k. iter \<le> k \<and> k < length buf \<longrightarrow> buf ! k \<noteq> newline)"
  then show "searchFile_line cfg (buf @ c # pad) (length buf) iter True = Inr (length buf, True)"
    by (intro searchFile_line_open_end) (simp_all add: nth_append)
next
  assume pat: "pattern cfg \<noteq> [] \<and> newline \<notin> set (pattern cfg) \<and> c \<notin> set (pattern cfg)"
  have open_end: "searchFile cfg (buf @ c # pad) (length buf) fpath =
      Inr (written cfg fpath (filter (line_selected cfg)
             (buffer_lines (take (length buf) (buf @ c # pad)))))"
    using pat assms by (intro searchFile_run) (simp_all add: nth_append)
  have closed_end: "searchFile cfg (buf @ [newline]) (length buf + 1) fpath =
      Inr (written cfg fpath (filter (line_selected cfg)
             (buffer_lines (take (length buf + 1) (buf @ [newline])))))"
    using pat assms by (intro searchFile_run) (simp_all add: nth_append)
  have same: "buffer_lines (buf @ [newline]) = buffer_lines buf"
    using assms by (rule buffer_lines_terminated)
  from open_end closed_end same
  show "searchFile cfg (buf @ c # pad) (length buf) fpath =
              searchFile cfg (buf @ [newline]) (length buf + 1) fpath"
    by simp
  from open_end
  show "searchFile cfg (buf @ c # pad) (length buf) fpath =
              Inr (written cfg fpath (filter (line_selected cfg) (buffer_lines buf)))"
    by simp
next
  from buffer_lines_last [OF assms] show "buffer_lines buf \<noteq> []"
    by (rule conjunct1)
  from buffer_lines_last [OF assms]
  show "last (buffer_lines buf) = rev (takeWhile (\<lambda>x. x \<noteq> newline) (rev buf))"
    by (rule conjunct2)
qed

section \<open>The claims\<close>

text \<open>
  In the statements below a run of \<^verbatim>\<open>searchFile\<close> or \<^verbatim>\<open>match\<close> on a list of exactly
  \<^verbatim>\<open>size\<close> bytes stands for the buffer with nothing readable behind it: there the
  result \<open>Inl (OutOfBounds i)\<close> says that the code reads index \<open>i\<close>, at or past the end
  of the buffer. A longer list is the buffer followed by readable bytes; \<open>behind\<close> is
  any such list, the empty one included.
\<close>

text \<open>
  C1 (the code departs from the claim). The claim wants inversion applied to the verdict
  of the whole line, so that the buffer \<open>cat\n dog\n catfish\n\<close> scanned for \<open>cat\<close> with
  inversion gives the one line \<open>dog\<close>. \<^verbatim>\<open>match\<close> passes every single start position
  through \<^verbatim>\<open>result\<close>, so with inversion \<^verbatim>\<open>searchFile\<close> writes all three lines: each has
  a start position at which \<open>cat\<close> does not stand. The stream path, run on the same three
  lines, writes \<open>dog\<close> alone (and obeys the inversion law for every line, lemma
  \<open>stream_inversion_law\<close>).
\<close>

theorem inverted_buffer_scan_prints_matching_lines:
  "searchFile \<lparr>complement = True, recursive = False, pattern = ''cat''\<rparr>
       (''cat\<newline>dog\<newline>catfish\<newline>'' @ behind) 16 fpath
     = Inr ''cat\<newline>dog\<newline>catfish\<newline>''
   \<and> searchstream \<lparr>complement = True, recursive = False, pattern = ''cat''\<rparr>
       [''cat'', ''dog'', ''catfish''] = Inr ''dog\<newline>''"
proof -
  let ?c = "\<lparr>complement = True, recursive = False, pattern = ''cat''\<rparr>"
  let ?b = "''cat\<newline>dog\<newline>catfish\<newline>''"
  have buffer: "take 16 (?b @ behind) = ?b"
    by simp
  have ends: "(?b @ behind) ! (16 - 1) = newline" and size: "16 \<le> length (?b @ behind)"
    by (simp_all add: newline_def)
  have sel: "filter (line_selected ?c) (buffer_lines ?b) = [''cat'', ''dog'', ''catfish'']"
    by code_simp
  have "searchFile ?c (?b @ behind) 16 fpath =
          Inr (written ?c fpath (filter (line_selected ?c) (buffer_lines (take 16 (?b @ behind)))))"
    using size ends by (intro searchFile_run) (simp_all add: newline_def)
  then have "searchFile ?c (?b @ behind) 16 fpath = Inr ''cat\<newline>dog\<newline>catfish\<newline>''"
    unfolding buffer sel by (simp add: newline_def)
  moreover have "searchstream ?c [''cat'', ''dog'', ''catfish''] = Inr ''dog\<newline>''"
    by code_simp
  ultimately show ?thesis
    by (simp only: simp_thms)
qed

text \<open>
  C2 (the code departs from the claim). The claim wants \<^verbatim>\<open>match\<close> to answer false,
  without reading at or past the end of the buffer, when fewer bytes than the pattern has
  remain. On the two-byte buffer \<open>ab\<close> with pattern \<open>abc\<close> and offset 0 the code reads
  index 2. When the byte behind the buffer can be read and is \<open>c\<close>, \<^verbatim>\<open>match\<close> answers
  true and \<^verbatim>\<open>searchFile\<close>, told that the size is 2, writes the line \<open>ab\<close>.
\<close>

theorem match_runs_past_buffer_end:
  "match \<lparr>complement = False, recursive = False, pattern = ''abc''\<rparr> ''ab'' 0
     = Inl (OutOfBounds 2)
   \<and> match \<lparr>complement = False, recursive = False, pattern = ''abc''\<rparr> (''ab'' @ ''c'') 0
     = Inr True
   \<and> searchFile \<lparr>complement = False, recursive = False, pattern = ''abc''\<rparr> (''ab'' @ ''c'') 2 fpath
     = Inr ''ab\<newline>''"
  by code_simp

text \<open>
  C3 (the code departs from the claim). The claim wants stream mode and buffer mode to
  take the same decision for every line, also for empty lines and with inversion. With
  pattern \<open>a\<close> and inversion, on the two lines (empty) and \<open>ab\<close>: stream mode writes the
  empty line and not \<open>ab\<close>, buffer mode writes \<open>ab\<close> and not the empty line. Without
  inversion the two modes do agree (lemma \<open>modes_agree_without_inversion\<close>).
\<close>

theorem stream_and_buffer_disagree_when_inverted:
  "searchstream \<lparr>complement = True, recursive = False, pattern = ''a''\<rparr> [[], ''ab'']
     = Inr ''\<newline>''
   \<and> searchFile \<lparr>complement = True, recursive = False, pattern = ''a''\<rparr>
       (''\<newline>ab\<newline>'' @ behind) 4 fpath = Inr ''ab\<newline>''"
proof -
  let ?c = "\<lparr>complement = True, recursive = False, pattern = ''a''\<rparr>"
  let ?b = "''\<newline>ab\<newline>''"
  have buffer: "take 4 (?b @ behind) = ?b"
    by simp
  have ends: "(?b @ behind) ! (4 - 1) = newline" and size: "4 \<le> length (?b @ behind)"
    by (simp_all add: newline_def)
  have sel: "filter (line_selected ?c) (buffer_lines ?b) = [''ab'']"
    by code_simp
  have "searchFile ?c (?b @ behind) 4 fpath =
          Inr (written ?c fpath (filter (line_selected ?c) (buffer_lines (take 4 (?b @ behind)))))"
    using size ends by (intro searchFile_run) (simp_all add: newline_def)
  then have "searchFile ?c (?b @ behind) 4 fpath = Inr ''ab\<newline>''"
    unfolding buffer sel by (simp add: newline_def)
  moreover have "searchstream ?c [[], ''ab''] = Inr ''\<newline>''"
    by code_simp
  ultimately show ?thesis
    by (simp only: simp_thms)
qed

text \<open>
  C4. Without inversion and for a non-empty pattern, \<^verbatim>\<open>searchline\<close> returns a non-zero
  value exactly when the pattern is a contiguous part of the line, and that value is one
  more than the leftmost offset at which the pattern occurs (0 when there is none).
\<close>

theorem searchline_leftmost_occurrence:
  assumes "pattern cfg \<noteq> []" and "\<not> complement cfg"
  shows "\<exists>r. searchline cfg L = Inr r
            \<and> (r \<noteq> 0) = sublist (pattern cfg) L
            \<and> (r = 0 \<or> (occursAt (pattern cfg) L (r - 1)
                          \<and> (\<forall>j<r - 1. \<not> occursAt (pattern cfg) L j)))"
proof (cases "sublist (pattern cfg) L")
  case True
  let ?i = "LEAST i. occursAt (pattern cfg) L i"
  from True obtain i0 where "occursAt (pattern cfg) L i0"
    unfolding sublist_occursAt ..
  then have here: "occursAt (pattern cfg) L ?i"
    by (rule LeastI)
  have before: "\<forall>j<?i. \<not> occursAt (pattern cfg) L j"
    using not_less_Least by blast
  have "searchline cfg L = Inr (result cfg (Suc ?i))"
    using assms(1) True by (rule searchline_found)
  also from assms(2) have "result cfg (Suc ?i) = Suc ?i"
    by (simp add: result_def)
  finally have run: "searchline cfg L = Inr (Suc ?i)" .
  show ?thesis
  proof (intro exI conjI)
    show "searchline cfg L = Inr (Suc ?i)"
      by (rule run)
    show "(Suc ?i \<noteq> 0) = sublist (pattern cfg) L"
      using True by simp
    show "Suc ?i = 0 \<or> (occursAt (pattern cfg) L (Suc ?i - 1)
                          \<and> (\<forall>j<Suc ?i - 1. \<not> occursAt (pattern cfg) L j))"
      unfolding diff_Suc_1 using here before by blast
  qed
next
  case False
  have "searchline cfg L = Inr (result cfg 0)"
    using assms(1) False by (rule searchline_not_found)
  also from assms(2) have "result cfg 0 = 0"
    by (simp add: result_def)
  finally have run: "searchline cfg L = Inr 0" .
  show ?thesis
  proof (intro exI conjI)
    show "searchline cfg L = Inr 0"
      by (rule run)
    show "((0::nat) \<noteq> 0) = sublist (pattern cfg) L"
      using False by simp
    show "(0::nat) = 0 \<or> (occursAt (pattern cfg) L (0 - 1)
                          \<and> (\<forall>j<0 - 1. \<not> occursAt (pattern cfg) L j))"
      by simp
  qed
qed

theorem searchline_leftmost_occurrence_witness:
  "searchline \<lparr>complement = False, recursive = False, pattern = ''abc''\<rparr> ''xxabcabc'' = Inr 3
   \<and> sublist ''abc'' ''xxabcabc''
   \<and> occursAt ''abc'' ''xxabcabc'' 2
   \<and> \<not> occursAt ''abc'' ''xxabcabc'' 0 \<and> \<not> occursAt ''abc'' ''xxabcabc'' 1"
proof -
  let ?c = "\<lparr>complement = False, recursive = False, pattern = ''abc''\<rparr>"
  have run: "searchline ?c ''xxabcabc'' = Inr 3"
    by code_simp
  have "pattern ?c \<noteq> []" and "\<not> complement ?c"
    by simp_all
  then obtain r where r: "searchline ?c ''xxabcabc'' = Inr r"
    "(r \<noteq> 0) = sublist (pattern ?c) ''xxabcabc''"
    "r = 0 \<or> (occursAt (pattern ?c) ''xxabcabc'' (r - 1)
              \<and> (\<forall>j<r - 1. \<not> occursAt (pattern ?c) ''xxabcabc'' j))"
    using searchline_leftmost_occurrence [of ?c "''xxabcabc''"] by blast
  from r(1) run have "r = 3"
    by simp
  with r(2,3) have "sublist ''abc'' ''xxabcabc''"
    and "occursAt ''abc'' ''xxabcabc'' 2"
    and "\<forall>j<2. \<not> occursAt ''abc'' ''xxabcabc'' j"
    by simp_all
  with run show ?thesis
    by (simp add: numeral_2_eq_2 less_Suc_eq)
qed



text \<open>
  C6 as stated fails: with inversion and the non-empty pattern \<open>a\<close>, \<^verbatim>\<open>searchline\<close>
  returns 1 for the zero-length line and \<^verbatim>\<open>searchstream\<close> prints it, as inversion
  of the verdict that the line does not contain the pattern demands.
\<close>

theorem empty_line_printed_when_inverted:
  "searchline \<lparr>complement = True, recursive = False, pattern = ''a''\<rparr> [] = Inr 1
   \<and> searchstream \<lparr>complement = True, recursive = False, pattern = ''a''\<rparr> [[]]
        = Inr ''\<newline>''"
  by code_simp

text \<open>
  C6, amended. Without inversion and for a non-empty pattern a zero-length line never
  matches and is never printed: \<^verbatim>\<open>searchline\<close> returns 0 for it and removing it from the
  stream does not change the output; in buffer mode it has no start position to select
  it, and whenever the scan returns, what it wrote is a list of non-empty lines of the
  buffer, in their order. The witness is the buffer \<open>\n \n abc\n\<close> with pattern \<open>a\<close>.
\<close>

theorem empty_line_never_printed:
  assumes "pattern cfg \<noteq> []" and "\<not> complement cfg"
  shows "searchline cfg [] = Inr 0
       \<and> searchstream cfg (xs @ [[]] @ ys) = searchstream cfg (xs @ ys)
       \<and> \<not> line_selected cfg []
       \<and> (sz \<le> length data \<and> searchFile cfg data sz fpath = Inr out \<longrightarrow>
            (\<exists>ls. subseq ls (buffer_lines (take sz data)) \<and> [] \<notin> set ls
                  \<and> out = written cfg fpath ls))"
proof (intro conjI impI)
  from assms(1) have nomatch: "\<not> sublist (pattern cfg) []"
    by simp
  with assms(1) have "searchline cfg [] = Inr (result cfg 0)"
    by (rule searchline_not_found)
  with assms(2) show "searchline cfg [] = Inr 0"
    by (simp add: result_def)
  from nomatch assms(2)
  have "filter (\<lambda>l. sublist (pattern cfg) l \<noteq> complement cfg) (xs @ [[]] @ ys) =
        filter (\<lambda>l. sublist (pattern cfg) l \<noteq> complement cfg) (xs @ ys)"
    by simp
  then show "searchstream cfg (xs @ [[]] @ ys) = searchstream cfg (xs @ ys)"
    unfolding searchstream_def searchstream_while_run [OF assms(1)] by (simp only:)
  show "\<not> line_selected cfg []"
    by simp
  show "\<exists>ls. subseq ls (buffer_lines (take sz data)) \<and> [] \<notin> set ls
              \<and> out = written cfg fpath ls"
    if "sz \<le> length data \<and> searchFile cfg data sz fpath = Inr out"
    using that by (intro searchFile_structure) simp_all
qed

theorem empty_line_never_printed_witness:
  "searchline \<lparr>complement = False, recursive = False, pattern = ''a''\<rparr> [] = Inr 0
   \<and> searchstream \<lparr>complement = False, recursive = False, pattern = ''a''\<rparr> [[], [], ''abc'']
        = searchstream \<lparr>complement = False, recursive = False, pattern = ''a''\<rparr> [[], ''abc'']
   \<and> searchFile \<lparr>complement = False, recursive = False, pattern = ''a''\<rparr>
        ''\<newline>\<newline>abc\<newline>'' 6 ''f'' = Inr ''abc\<newline>''
   \<and> (\<exists>ls. subseq ls [[], [], ''abc''] \<and> [] \<notin> set ls
          \<and> ''abc\<newline>'' = written \<lparr>complement = False, recursive = False, pattern = ''a''\<rparr> ''f'' ls)"
proof -
  let ?c = "\<lparr>complement = False, recursive = False, pattern = ''a''\<rparr>"
  let ?d = "''\<newline>\<newline>abc\<newline>''"
  have hyps: "pattern ?c \<noteq> []" "\<not> complement ?c"
    by simp_all
  note th = empty_line_never_printed [OF hyps]
  have run: "searchFile ?c ?d 6 ''f'' = Inr ''abc\<newline>''"
    by code_simp
  have ls: "buffer_lines (take 6 ?d) = [[], [], ''abc'']"
    by code_simp
  have "searchline ?c [] = Inr 0"
    using th [THEN conjunct1] .
  moreover have "searchstream ?c ([[]] @ [[]] @ [''abc'']) = searchstream ?c ([[]] @ [''abc''])"
    using th [THEN conjunct2, THEN conjunct1, of "[[]]" "[''abc'']"] .
  then have "searchstream ?c [[], [], ''abc''] = searchstream ?c [[], ''abc'']"
    by simp
  moreover have "6 \<le> length ?d \<and> searchFile ?c ?d 6 ''f'' = Inr ''abc\<newline>''"
    using run by simp
  then have "\<exists>ls. subseq ls (buffer_lines (take 6 ?d)) \<and> [] \<notin> set ls
          \<and> ''abc\<newline>'' = written ?c ''f'' ls"
    by (rule th [THEN conjunct2, THEN conjunct2, THEN conjunct2, rule_format])
  then have "\<exists>ls. subseq ls [[], [], ''abc''] \<and> [] \<notin> set ls
          \<and> ''abc\<newline>'' = written ?c ''f'' ls"
    unfolding ls .
  ultimately show ?thesis
    using run by (simp only: simp_thms)
qed

text \<open>
  C7. Scanning the buffer \<open>abc\n def\n\<close> (8 bytes, whatever lies behind them) for
  \<open>bc\<close> without inversion writes the one line \<open>abc\<close> and its newline, and not \<open>def\<close>;
  scanning it for \<open>x\<close> writes nothing.
\<close>

theorem line_splitting_abc_def:
  "searchFile \<lparr>complement = False, recursive = False, pattern = ''bc''\<rparr>
       (''abc\<newline>def\<newline>'' @ behind) 8 fpath = Inr ''abc\<newline>''
   \<and> searchFile \<lparr>complement = False, recursive = False, pattern = ''x''\<rparr>
       (''abc\<newline>def\<newline>'' @ behind) 8 fpath = Inr []"
proof -
  let ?bc = "\<lparr>complement = False, recursive = False, pattern = ''bc''\<rparr>"
  let ?x = "\<lparr>complement = False, recursive = False, pattern = ''x''\<rparr>"
  let ?d = "''abc\<newline>def\<newline>'' @ behind"
  have buffer: "take 8 ?d = ''abc\<newline>def\<newline>''"
    by simp
  have ends: "?d ! (8 - 1) = newline" and size: "8 \<le> length ?d"
    by (simp_all add: newline_def)
  have sel: "filter (line_selected ?bc) (buffer_lines ''abc\<newline>def\<newline>'') = [''abc'']"
    "filter (line_selected ?x) (buffer_lines ''abc\<newline>def\<newline>'') = []"
    by code_simp+
  have "searchFile ?bc ?d 8 fpath =
          Inr (written ?bc fpath (filter (line_selected ?bc) (buffer_lines (take 8 ?d))))"
    using size ends by (intro searchFile_run) (simp_all add: newline_def)
  moreover have "searchFile ?x ?d 8 fpath =
          Inr (written ?x fpath (filter (line_selected ?x) (buffer_lines (take 8 ?d))))"
    using size ends by (intro searchFile_run) (simp_all add: newline_def)
  ultimately show ?thesis
    unfolding buffer sel by (simp add: newline_def)
qed

text \<open>
  C8. Path tagging. Whenever \<^verbatim>\<open>searchFile\<close> returns, its output is, for some of the
  lines of the buffer in their order, the line with the path and a colon before it when
  \<^verbatim>\<open>recursive\<close> is set and nothing before it otherwise, and a newline after it. For a
  non-empty pattern without newline byte, on a buffer that ends in a newline or is
  followed by a readable byte outside the pattern, these are exactly the selected lines.
  \<^verbatim>\<open>searchstream\<close> writes each printed line and a newline, with no path, whatever
  \<^verbatim>\<open>recursive\<close> is. The witness is the path \<open>foo.txt\<close> and the line \<open>hello\<close>.
\<close>

theorem path_tag_only_when_recursive:
  "(sz \<le> length data \<and> searchFile cfg data sz fpath = Inr out \<longrightarrow>
      (\<exists>ls. subseq ls (buffer_lines (take sz data))
            \<and> out = concat (map (\<lambda>l. (if recursive cfg then fpath @ '':'' else []) @ l @ [newline]) ls)))
   \<and> (pattern cfg \<noteq> [] \<and> newline \<notin> set (pattern cfg) \<and> sz \<le> length data
        \<and> (sz = 0 \<or> data ! (sz - 1) = newline
             \<or> (sz < length data \<and> data ! sz \<notin> set (pattern cfg))) \<longrightarrow>
      searchFile cfg data sz fpath =
        Inr (concat (map (\<lambda>l. (if recursive cfg then fpath @ '':'' else []) @ l @ [newline])
                         (filter (line_selected cfg) (buffer_lines (take sz data))))))
   \<and> (pattern cfg \<noteq> [] \<longrightarrow>
      searchstream cfg lines =
        Inr (concat (map (\<lambda>l. l @ [newline])
                         (filter (\<lambda>l. sublist (pattern cfg) l \<noteq> complement cfg) lines))))"
proof (intro conjI impI)
  show "\<exists>ls. subseq ls (buffer_lines (take sz data))
            \<and> out = concat (map (\<lambda>l. (if recursive cfg then fpath @ '':'' else []) @ l @ [newline]) ls)"
    if "sz \<le> length data \<and> searchFile cfg data sz fpath = Inr out"
  proof -
    from that obtain ls where "subseq ls (buffer_lines (take sz data))"
      and "out = written cfg fpath ls"
      using searchFile_structure [of cfg data sz fpath out] by blast
    then have "subseq ls (buffer_lines (take sz data))
        \<and> out = concat (map (\<lambda>l. (if recursive cfg then fpath @ '':'' else []) @ l @ [newline]) ls)"
      by (simp only: written_def)
    then show ?thesis ..
  qed
  show "searchFile cfg data sz fpath =
        Inr (concat (map (\<lambda>l. (if recursive cfg then fpath @ '':'' else []) @ l @ [newline])
                         (filter (line_selected cfg) (buffer_lines (take sz data)))))"
    if "pattern cfg \<noteq> [] \<and> newline \<notin> set (pattern cfg) \<and> sz \<le> length data
        \<and> (sz = 0 \<or> data ! (sz - 1) = newline
             \<or> (sz < length data \<and> data ! sz \<notin> set (pattern cfg)))"
  proof -
    from that have "pattern cfg \<noteq> []" and "newline \<notin> set (pattern cfg)" and "sz \<le> length data"
      and "sz = 0 \<or> data ! (sz - 1) = newline
             \<or> (sz < length data \<and> data ! sz \<notin> set (pattern cfg))"
      by blast+
    then show ?thesis
      unfolding written_def [symmetric] by (rule searchFile_run)
  qed
  show "searchstream cfg lines =
        Inr (concat (map (\<lambda>l. l @ [newline])
                         (filter (\<lambda>l. sublist (pattern cfg) l \<noteq> complement cfg) lines)))"
    if "pattern cfg \<noteq> []"
    unfolding searchstream_def searchstream_while_run [OF that] by simp
qed

theorem path_tag_only_when_recursive_witness:
  "searchFile \<lparr>complement = False, recursive = True, pattern = ''ell''\<rparr>
       ''hello\<newline>'' 6 ''foo.txt'' = Inr ''foo.txt:hello\<newline>''
   \<and> searchFile \<lparr>complement = False, recursive = False, pattern = ''ell''\<rparr>
       ''hello\<newline>'' 6 ''foo.txt'' = Inr ''hello\<newline>''
   \<and> searchstream \<lparr>complement = False, recursive = True, pattern = ''ell''\<rparr>
       [''hello''] = Inr ''hello\<newline>''
   \<and> (\<exists>ls. subseq ls [''hello'']
          \<and> ''foo.txt:hello\<newline>'' = concat (map (\<lambda>l. ''foo.txt:'' @ l @ [newline]) ls))"
proof -
  let ?r = "\<lparr>complement = False, recursive = True, pattern = ''ell''\<rparr>"
  let ?s = "\<lparr>complement = False, recursive = False, pattern = ''ell''\<rparr>"
  let ?d = "''hello\<newline>''"
  have r: "pattern ?r \<noteq> [] \<and> newline \<notin> set (pattern ?r) \<and> 6 \<le> length ?d
    \<and> ((6::nat) = 0 \<or> ?d ! (6 - 1) = newline \<or> (6 < length ?d \<and> ?d ! 6 \<notin> set (pattern ?r)))"
    by (simp add: newline_def)
  have s: "pattern ?s \<noteq> [] \<and> newline \<notin> set (pattern ?s) \<and> 6 \<le> length ?d
    \<and> ((6::nat) = 0 \<or> ?d ! (6 - 1) = newline \<or> (6 < length ?d \<and> ?d ! 6 \<notin> set (pattern ?s)))"
    by (simp add: newline_def)
  have ls: "filter (line_selected ?r) (buffer_lines (take 6 ?d)) = [''hello'']"
    "filter (line_selected ?s) (buffer_lines (take 6 ?d)) = [''hello'']"
    "filter (\<lambda>l. sublist (pattern ?r) l \<noteq> complement ?r) [''hello''] = [''hello'']"
    by code_simp+
  have bl: "buffer_lines (take 6 ?d) = [''hello'']"
    by code_simp
  have tagged: "searchFile ?r ?d 6 ''foo.txt'' = Inr ''foo.txt:hello\<newline>''"
    using path_tag_only_when_recursive
      [of 6 ?d ?r "''foo.txt''", THEN conjunct2, THEN conjunct1, rule_format, OF r]
    unfolding ls by (simp add: newline_def)
  have plain: "searchFile ?s ?d 6 ''foo.txt'' = Inr ''hello\<newline>''"
    using path_tag_only_when_recursive
      [of 6 ?d ?s "''foo.txt''", THEN conjunct2, THEN conjunct1, rule_format, OF s]
    unfolding ls by (simp add: newline_def)
  have stream: "searchstream ?r [''hello''] = Inr ''hello\<newline>''"
    using path_tag_only_when_recursive
      [of 6 ?d ?r "''foo.txt''" _ "[''hello'']", THEN conjunct2, THEN conjunct2, rule_format]
    unfolding ls by (simp add: newline_def)
  from tagged have "6 \<le> length ?d \<and> searchFile ?r ?d 6 ''foo.txt'' = Inr ''foo.txt:hello\<newline>''"
    by simp
  then have "\<exists>ls. subseq ls (buffer_lines (take 6 ?d))
     \<and> ''foo.txt:hello\<newline>'' =
         concat (map (\<lambda>l. (if recursive ?r then ''foo.txt'' @ '':'' else []) @ l @ [newline]) ls)"
    by (rule path_tag_only_when_recursive [THEN conjunct1, rule_format])
  then have "\<exists>ls. subseq ls [''hello'']
          \<and> ''foo.txt:hello\<newline>'' = concat (map (\<lambda>l. ''foo.txt:'' @ l @ [newline]) ls)"
    unfolding bl by simp
  with tagged plain stream show ?thesis
    by (simp only: simp_thms)
qed

text \<open>
  C9. For every non-empty buffer whose last byte is not a newline and with nothing
  readable behind it: the line loop, started anywhere in the last line with
  \<^verbatim>\<open>matchFound\<close> already true (so that \<^verbatim>\<open>match\<close> is not called at all), reads index
  \<^verbatim>\<open>size\<close>, because \<^verbatim>\<open>data[iter]\<close> is evaluated before \<^verbatim>\<open>iter < size\<close>; for a non-empty
  pattern the same holds when it starts with \<^verbatim>\<open>matchFound\<close> false, and the whole scan
  ends in that read. In the witness every call of \<^verbatim>\<open>match\<close> stays inside the buffer.
\<close>

theorem final_line_reads_one_past_end:
  assumes "buf \<noteq> []" and "last buf \<noteq> newline"
  shows "(\<forall>iter. iter \<le> length buf \<and> (\<forall>k. iter \<le> k \<and> k < length buf \<longrightarrow> buf ! k \<noteq> newline) \<longrightarrow>
            searchFile_line cfg buf (length buf) iter True = Inl (OutOfBounds (length buf)))
       \<and> (pattern cfg \<noteq> [] \<longrightarrow>
            (\<forall>iter. iter \<le> length buf \<and> (\<forall>k. iter \<le> k \<and> k < length buf \<longrightarrow> buf ! k \<noteq> newline) \<longrightarrow>
               searchFile_line cfg buf (length buf) iter False = Inl (OutOfBounds (length buf))))
       \<and> (pattern cfg \<noteq> [] \<longrightarrow>
            searchFile cfg buf (length buf) fpath = Inl (OutOfBounds (length buf)))"
proof (intro conjI allI impI)
  fix iter
  assume "iter \<le> length buf \<and> (\<forall>k. iter \<le> k \<and> k < length buf \<longrightarrow> buf ! k \<noteq> newline)"
  then show "searchFile_line cfg buf (length buf) iter True = Inl (OutOfBounds (length buf))"
    by (intro searchFile_line_tight) simp_all
next
  fix iter
  assume "pattern cfg \<noteq> []"
    and "iter \<le> length buf \<and> (\<forall>k. iter \<le> k \<and> k < length buf \<longrightarrow> buf ! k \<noteq> newline)"
  then show "searchFile_line cfg buf (length buf) iter False = Inl (OutOfBounds (length buf))"
    by (intro searchFile_line_tight_any) simp_all
next
  assume nonempty: "pattern cfg \<noteq> []"
  from assms have "buf ! (length buf - 1) \<noteq> newline"
    by (simp add: last_conv_nth)
  moreover from assms(1) have "0 < length buf"
    by simp
  ultimately have "searchFile_while cfg buf (length buf) fpath 0 [] = Inl (OutOfBounds (length buf))"
    using nonempty by (intro searchFile_while_tight) simp_all
  then show "searchFile cfg buf (length buf) fpath = Inl (OutOfBounds (length buf))"
    by (simp only: searchFile_def)
qed

theorem final_line_reads_one_past_end_witness:
  "match \<lparr>complement = False, recursive = False, pattern = ''a''\<rparr> ''ab'' 0 = Inr True
   \<and> match \<lparr>complement = False, recursive = False, pattern = ''a''\<rparr> ''ab'' 1 = Inr False
   \<and> searchFile \<lparr>complement = False, recursive = False, pattern = ''a''\<rparr> ''ab'' 2 ''f''
        = Inl (OutOfBounds 2)
   \<and> searchFile_line \<lparr>complement = False, recursive = False, pattern = ''a''\<rparr> ''ab'' 2 0 True
        = Inl (OutOfBounds 2)
   \<and> searchFile_line \<lparr>complement = False, recursive = False, pattern = ''a''\<rparr> ''ab'' 2 0 False
        = Inl (OutOfBounds 2)"
proof -
  let ?c = "\<lparr>complement = False, recursive = False, pattern = ''a''\<rparr>"
  have hyps: "''ab'' \<noteq> []" "last ''ab'' \<noteq> newline"
    by (simp_all add: newline_def)
  have ne: "pattern ?c \<noteq> []"
    by simp
  have len: "length ''ab'' = 2"
    by simp
  have clean: "(0::nat) \<le> 2 \<and> (\<forall>k. 0 \<le> k \<and> k < 2 \<longrightarrow> ''ab'' ! k \<noteq> newline)"
    by (simp add: newline_def less_Suc_eq numeral_2_eq_2)
  note th = final_line_reads_one_past_end [OF hyps, of ?c "''f''", unfolded len]
  have "searchFile_line ?c ''ab'' 2 0 True = Inl (OutOfBounds 2)"
    using th [THEN conjunct1, rule_format, OF clean] .
  moreover have "searchFile_line ?c ''ab'' 2 0 False = Inl (OutOfBounds 2)"
    using th [THEN conjunct2, THEN conjunct1, rule_format, OF ne clean] .
  moreover have "searchFile ?c ''ab'' 2 ''f'' = Inl (OutOfBounds 2)"
    using th [THEN conjunct2, THEN conjunct2, rule_format, OF ne] .
  moreover have "match ?c ''ab'' 0 = Inr True" and "match ?c ''ab'' 1 = Inr False"
    by code_simp+
  ultimately show ?thesis
    by (simp only: simp_thms)
qed

text \<open>
  C10. In stream mode, for a non-empty pattern (the invariant of the specification),
  no read leaves the line or the pattern: the inner loop at any start position and
  \<^verbatim>\<open>searchline\<close> as a whole return a value; when the pattern would extend past the end
  of the line the inner loop just reports no match. On the line made of the pattern
  without its last byte \<^verbatim>\<open>searchline\<close> reports no occurrence, while \<^verbatim>\<open>match\<close>, given the
  same bytes as its buffer, reads one past their end.
\<close>

theorem searchline_reads_in_bounds:
  assumes "pattern cfg \<noteq> []"
  shows "(\<exists>r. searchline_while cfg L startPos 0 = Inr r)
       \<and> (\<exists>r. searchline cfg L = Inr r)
       \<and> (length L < startPos + length (pattern cfg) \<longrightarrow>
            searchline_while cfg L startPos 0 = Inr None)
       \<and> searchline cfg (butlast (pattern cfg)) = Inr (result cfg 0)
       \<and> match cfg (butlast (pattern cfg)) 0 = Inl (OutOfBounds (length (pattern cfg) - 1))"
proof (intro conjI impI)
  show "\<exists>r. searchline_while cfg L startPos 0 = Inr r"
    using assms by (simp add: searchline_while_start)
  show "\<exists>r. searchline cfg L = Inr r"
    using searchline_decision [OF assms, of L] by blast
  show "searchline_while cfg L startPos 0 = Inr None"
    if "length L < startPos + length (pattern cfg)"
  proof -
    from that have "\<not> occursAt (pattern cfg) L startPos"
      by (simp add: occursAt_def)
    with assms show ?thesis
      by (simp add: searchline_while_start)
  qed
  have "\<not> sublist (pattern cfg) (butlast (pattern cfg))"
  proof
    assume "sublist (pattern cfg) (butlast (pattern cfg))"
    then have "length (pattern cfg) \<le> length (butlast (pattern cfg))"
      by (rule sublist_length_le)
    then have "length (pattern cfg) \<le> length (pattern cfg) - 1"
      by (simp only: length_butlast)
    moreover from assms have "length (pattern cfg) \<noteq> 0"
      by simp
    ultimately show False
      by arith
  qed
  with assms show "searchline cfg (butlast (pattern cfg)) = Inr (result cfg 0)"
    by (rule searchline_not_found)
  show "match cfg (butlast (pattern cfg)) 0 = Inl (OutOfBounds (length (pattern cfg) - 1))"
    using assms by (rule match_butlast)
qed

theorem searchline_reads_in_bounds_witness:
  "searchline_while \<lparr>complement = False, recursive = False, pattern = ''ab''\<rparr> ''xa'' 1 0 = Inr None
   \<and> searchline \<lparr>complement = False, recursive = False, pattern = ''ab''\<rparr> ''xa'' = Inr 0
   \<and> searchline \<lparr>complement = False, recursive = False, pattern = ''ab''\<rparr> ''a'' = Inr 0
   \<and> match \<lparr>complement = False, recursive = False, pattern = ''ab''\<rparr> ''a'' 0 = Inl (OutOfBounds 1)"
proof -
  let ?c = "\<lparr>complement = False, recursive = False, pattern = ''ab''\<rparr>"
  have "pattern ?c \<noteq> []"
    by simp
  from searchline_reads_in_bounds [OF this, of "''xa''" 1]
  have "searchline_while ?c ''xa'' 1 0 = Inr None"
    and "searchline ?c ''a'' = Inr (result ?c 0)"
    and "match ?c ''a'' 0 = Inl (OutOfBounds 1)"
    by simp_all
  moreover have "searchline ?c ''xa'' = Inr 0"
    by code_simp
  ultimately show ?thesis
    by (simp add: result_def)
qed

end
